theory Spec2Isabelle
  imports Main "HOL-Library.Word" "HOL-Library.List_Lexorder" "HOL-Library.Sublist"
begin

unbundle bit_operations_syntax

section \<open>Entities of the asset VM\<close>

text \<open>
  The development follows \<^verbatim>\<open>vms/avm/operation_tx.go\<close>, and after it the codec
  session and the identifier strings that the test files of the repository exercise. An
  identifier (\<^verbatim>\<open>ids.ID\<close>) wraps its bytes, and two identifiers are equal when their
  bytes are. Payloads that the Go code keeps as \<^verbatim>\<open>interface{}\<close> values (input, output
  and credential payloads) are values of a type variable \<open>'v\<close>. The pointers to
  operations, inputs, outputs and UTXOs that the slices hold are taken to be non-nil; the
  transaction pointer of \<^verbatim>\<open>SyntacticVerify\<close> and the credential pointers can be nil.
\<close>

type_synonym byte = "8 word"

datatype ID = NewID (Key: "byte list")

datatype error =
    errNilTx
  | errDoubleSpend
  | errOperationsNotSortedUnique
  | errAssetIDMismatch
  | errMissingUTXO
  | errInvalidUTXO
  | errIncompatibleFx
  | errOther string

record UTXOID =
  TxID :: ID
  OutputIndex :: "32 word"

record 'v UTXO =
  utxo_UTXOID :: UTXOID
  utxo_AssetID :: ID
  utxo_Out :: 'v

record 'v OperableInput =
  in_UTXOID :: UTXOID
  in_In :: 'v

record 'v OperableOutput =
  out_Out :: 'v

record 'v Operation =
  op_AssetID :: ID
  op_Ins :: "'v OperableInput list"
  op_Outs :: "'v OperableOutput list"

record 'v TransferableInput =
  tin_UTXOID :: UTXOID
  tin_AssetID :: ID
  tin_In :: 'v

text \<open>
  Of \<^verbatim>\<open>BaseTx\<close> the operation transaction reads the input list and the cached
  transaction identifier (\<^verbatim>\<open>t.ID()\<close>); everything else of it is reached through its
  own methods, which are collaborators below.
\<close>

record 'v BaseTx =
  base_ID :: ID
  base_Ins :: "'v TransferableInput list"

record 'v OperationTx =
  tx_BaseTx :: "'v BaseTx"
  tx_Ops :: "'v Operation list"

record 'v Credential =
  cred_Cred :: 'v

section \<open>Collaborators\<close>

text \<open>
  The methods that \<^verbatim>\<open>operation_tx.go\<close> calls and that live in other files of the
  package are taken as parameters, collected in one record. A Go \<^verbatim>\<open>error\<close> result is
  an \<open>error option\<close> (\<open>None\<close> is \<^verbatim>\<open>nil\<close>); \<^verbatim>\<open>vm.state.UTXO\<close> answers
  \<open>None\<close> when it returns an error; \<^verbatim>\<open>parent_Decided\<close> stands for
  \<^verbatim>\<open>parent.Status().Decided()\<close>; \<^verbatim>\<open>getFx\<close> returns an error or a Go \<^verbatim>\<open>int\<close>;
  an entry of \<^verbatim>\<open>fxs\<close> is the \<^verbatim>\<open>VerifyOperation\<close> entry point of that extension,
  applied to the resolved outputs, the inputs, the credentials and the outputs.
\<close>

record 'v VM =
  InputID :: "UTXOID \<Rightarrow> ID"
  InputSource :: "UTXOID \<Rightarrow> ID \<times> 32 word"
  BaseTx_SyntacticVerify :: "'v BaseTx \<Rightarrow> error option"
  Operation_Verify :: "'v Operation \<Rightarrow> error option"
  isSortedAndUniqueOperations :: "'v Operation list \<Rightarrow> bool"
  BaseTx_SemanticVerify :: "'v BaseTx \<Rightarrow> 'v Credential option list \<Rightarrow> error option"
  BaseTx_UTXOs :: "'v BaseTx \<Rightarrow> 'v UTXO list"
  state_UTXO :: "ID \<Rightarrow> 'v UTXO option"
  parent_Verify :: "ID \<Rightarrow> error option"
  parent_Decided :: "ID \<Rightarrow> bool"
  parent_UTXOs :: "ID \<Rightarrow> 'v UTXO list"
  getFx :: "'v option \<Rightarrow> error + int"
  fxs :: "('v list \<Rightarrow> 'v list \<Rightarrow> 'v list \<Rightarrow> 'v list \<Rightarrow> error option) list"
  verifyFxUsage :: "int \<Rightarrow> ID \<Rightarrow> bool"

section \<open>UTXOs\<close>

text \<open>
  The inner loop of \<^verbatim>\<open>UTXOs\<close>: every output of one operation is appended with the
  index \<^verbatim>\<open>uint32(len(utxos))\<close>, the length of the list built so far cut to 32 bits.
\<close>

fun outsLoop :: "ID \<Rightarrow> ID \<Rightarrow> 'v UTXO list \<Rightarrow> 'v OperableOutput list \<Rightarrow> 'v UTXO list" where
  "outsLoop txID asset utxos [] = utxos"
| "outsLoop txID asset utxos (out # outs) =
     outsLoop txID asset
       (utxos @ [\<lparr>utxo_UTXOID = \<lparr>TxID = txID, OutputIndex = of_nat (length utxos)\<rparr>,
                  utxo_AssetID = asset,
                  utxo_Out = out_Out out\<rparr>])
       outs"

fun utxoOpsLoop :: "ID \<Rightarrow> 'v UTXO list \<Rightarrow> 'v Operation list \<Rightarrow> 'v UTXO list" where
  "utxoOpsLoop txID utxos [] = utxos"
| "utxoOpsLoop txID utxos (op # ops) =
     utxoOpsLoop txID (outsLoop txID (op_AssetID op) utxos (op_Outs op)) ops"

definition UTXOs :: "'v VM \<Rightarrow> 'v OperationTx \<Rightarrow> 'v UTXO list" where
  "UTXOs vm t =
     utxoOpsLoop (base_ID (tx_BaseTx t)) (BaseTx_UTXOs vm (tx_BaseTx t)) (tx_Ops t)"

section \<open>Syntactic verification\<close>

text \<open>
  \<^verbatim>\<open>ids.Set\<close> is a set of identifiers. The loop over the inputs of one operation
  returns the double-spend error at the first identifier that is already in the set, and
  the grown set otherwise.
\<close>

fun synInsLoop :: "'v VM \<Rightarrow> ID set \<Rightarrow> 'v OperableInput list \<Rightarrow> error + ID set" where
  "synInsLoop vm inputs [] = Inr inputs"
| "synInsLoop vm inputs (inp # rest) =
     (let inputID = InputID vm (in_UTXOID inp) in
      if inputID \<in> inputs then Inl errDoubleSpend
      else synInsLoop vm (insert inputID inputs) rest)"

fun synOpsLoop :: "'v VM \<Rightarrow> ID set \<Rightarrow> 'v Operation list \<Rightarrow> error option" where
  "synOpsLoop vm inputs [] = None"
| "synOpsLoop vm inputs (op # ops) =
     (case Operation_Verify vm op of
        Some err \<Rightarrow> Some err
      | None \<Rightarrow>
         (case synInsLoop vm inputs (op_Ins op) of
            Inl err \<Rightarrow> Some err
          | Inr inputs' \<Rightarrow> synOpsLoop vm inputs' ops))"

definition baseInputs :: "'v VM \<Rightarrow> 'v BaseTx \<Rightarrow> ID set" where
  "baseInputs vm b = foldl (\<lambda>inputs inp. insert (InputID vm (tin_UTXOID inp)) inputs) {} (base_Ins b)"

text \<open>The receiver is a pointer: \<open>None\<close> is the nil transaction.\<close>

definition SyntacticVerify :: "'v VM \<Rightarrow> 'v OperationTx option \<Rightarrow> error option" where
  "SyntacticVerify vm tp =
     (case tp of
        None \<Rightarrow> Some errNilTx
      | Some t \<Rightarrow>
         (case BaseTx_SyntacticVerify vm (tx_BaseTx t) of
            Some err \<Rightarrow> Some err
          | None \<Rightarrow>
             (case synOpsLoop vm (baseInputs vm (tx_BaseTx t)) (tx_Ops t) of
                Some err \<Rightarrow> Some err
              | None \<Rightarrow>
                 if \<not> isSortedAndUniqueOperations vm (tx_Ops t)
                 then Some errOperationsNotSortedUnique
                 else None)))"

section \<open>Semantic verification\<close>

text \<open>
  A run of \<^verbatim>\<open>SemanticVerify\<close> ends by returning (\<open>Val\<close> for \<^verbatim>\<open>nil\<close>, \<open>Fail\<close> for an
  error) or by a run-time panic (an index out of range, a nil credential). Beside its
  result the model keeps the calls made to collaborators, in the order the code makes
  them.
\<close>

datatype 'a res = Val 'a | Fail error | Panic

datatype 'v call =
    call_BaseTx_SemanticVerify
  | call_state_UTXO ID
  | call_parent_Verify ID
  | call_parent_Status ID
  | call_parent_UTXOs ID
  | call_getFx "'v option"
  | call_verifyFxUsage int ID
  | call_VerifyOperation int "'v list" "'v list" "'v list" "'v list"

text \<open>
  Lines 128 to 164: one input is resolved to the payload of the output it spends.
  \<^verbatim>\<open>int\<close> has 64 bits, so \<^verbatim>\<open>int(inputIndex)\<close> is the index read as an unsigned
  number; the slice access panics when it is out of range.
\<close>

definition resolveInput :: "'v VM \<Rightarrow> ID \<Rightarrow> 'v OperableInput \<Rightarrow> 'v call list \<times> 'v res" where
  "resolveInput vm opAssetID inp =
     (let utxoID = InputID vm (in_UTXOID inp) in
      case state_UTXO vm utxoID of
        Some utxo \<Rightarrow>
          ([call_state_UTXO utxoID],
           if utxo_AssetID utxo \<noteq> opAssetID then Fail errAssetIDMismatch
           else Val (utxo_Out utxo))
      | None \<Rightarrow>
          (let (inputTx, inputIndex) = InputSource vm (in_UTXOID inp) in
           if parent_Verify vm inputTx \<noteq> None then
             ([call_state_UTXO utxoID, call_parent_Verify inputTx], Fail errMissingUTXO)
           else if parent_Decided vm inputTx then
             ([call_state_UTXO utxoID, call_parent_Verify inputTx, call_parent_Status inputTx],
              Fail errMissingUTXO)
           else
             (let parentUTXOs = parent_UTXOs vm inputTx;
                  tr = [call_state_UTXO utxoID, call_parent_Verify inputTx,
                        call_parent_Status inputTx, call_parent_UTXOs inputTx] in
              if (of_nat (length parentUTXOs) :: 32 word) \<le> inputIndex
                 \<or> sint (ucast inputIndex :: 64 word) < 0
              then (tr, Fail errInvalidUTXO)
              else if length parentUTXOs \<le> unat inputIndex then (tr, Panic)
              else
                (let utxo = parentUTXOs ! unat inputIndex in
                 (tr, if utxo_AssetID utxo \<noteq> opAssetID then Fail errAssetIDMismatch
                      else Val (utxo_Out utxo))))))"

text \<open>
  Lines 122 to 165: the loop over the inputs of one operation, at index \<open>i\<close>, with the
  three slices it grows. \<^verbatim>\<open>creds[i+offset]\<close> panics beyond the end of the credential
  list, and \<^verbatim>\<open>cred.Cred\<close> panics on a nil credential.
\<close>

fun insLoop ::
  "'v VM \<Rightarrow> 'v Credential option list \<Rightarrow> nat \<Rightarrow> ID \<Rightarrow> nat \<Rightarrow> 'v OperableInput list
     \<Rightarrow> 'v list \<times> 'v list \<times> 'v list \<Rightarrow> 'v call list \<times> ('v list \<times> 'v list \<times> 'v list) res" where
  "insLoop vm creds offset opAssetID i [] acc = ([], Val acc)"
| "insLoop vm creds offset opAssetID i (inp # rest) (utxos, ins, credIntfs) =
     (if length creds \<le> i + offset then ([], Panic)
      else case creds ! (i + offset) of
        None \<Rightarrow> ([], Panic)
      | Some cred \<Rightarrow>
         (case resolveInput vm opAssetID inp of
            (tr, Val out) \<Rightarrow>
              (case insLoop vm creds offset opAssetID (Suc i) rest
                      (utxos @ [out], ins @ [in_In inp], credIntfs @ [cred_Cred cred]) of
                 (tr', r) \<Rightarrow> (tr @ tr', r))
          | (tr, Fail err) \<Rightarrow> (tr, Fail err)
          | (tr, Panic) \<Rightarrow> (tr, Panic)))"

text \<open>
  Lines 171 to 177: the value handed to \<^verbatim>\<open>getFx\<close>; \<open>None\<close> is the nil interface.
\<close>

definition fxObj :: "'v list \<Rightarrow> 'v list \<Rightarrow> 'v option" where
  "fxObj ins outs =
     (case ins of
        x # _ \<Rightarrow> Some x
      | [] \<Rightarrow> (case outs of y # _ \<Rightarrow> Some y | [] \<Rightarrow> None))"

text \<open>Lines 115 to 192: the body of the loop over the operations.\<close>

definition verifyOp ::
  "'v VM \<Rightarrow> 'v Credential option list \<Rightarrow> nat \<Rightarrow> 'v Operation \<Rightarrow> 'v call list \<times> unit res" where
  "verifyOp vm creds offset op =
     (let opAssetID = op_AssetID op in
      case insLoop vm creds offset opAssetID 0 (op_Ins op) ([], [], []) of
        (tr, Panic) \<Rightarrow> (tr, Panic)
      | (tr, Fail err) \<Rightarrow> (tr, Fail err)
      | (tr, Val (utxos, ins, credIntfs)) \<Rightarrow>
          (let outs = map out_Out (op_Outs op);
               obj = fxObj ins outs in
           case getFx vm obj of
             Inl err \<Rightarrow> (tr @ [call_getFx obj], Fail err)
           | Inr fxIndex \<Rightarrow>
               if fxIndex < 0 \<or> int (length (fxs vm)) \<le> fxIndex
               then (tr @ [call_getFx obj], Panic)
               else
                 (let fx = fxs vm ! nat fxIndex in
                  if \<not> verifyFxUsage vm fxIndex opAssetID
                  then (tr @ [call_getFx obj, call_verifyFxUsage fxIndex opAssetID],
                        Fail errIncompatibleFx)
                  else
                    (let tr' = tr @ [call_getFx obj, call_verifyFxUsage fxIndex opAssetID,
                                     call_VerifyOperation fxIndex utxos ins credIntfs outs] in
                     case fx utxos ins credIntfs outs of
                       Some err \<Rightarrow> (tr', Fail err)
                     | None \<Rightarrow> (tr', Val ())))))"

fun opsLoop ::
  "'v VM \<Rightarrow> 'v Credential option list \<Rightarrow> nat \<Rightarrow> 'v Operation list \<Rightarrow> 'v call list \<times> unit res" where
  "opsLoop vm creds offset [] = ([], Val ())"
| "opsLoop vm creds offset (op # ops) =
     (case verifyOp vm creds offset op of
        (tr, Val _) \<Rightarrow>
          (case opsLoop vm creds (offset + length (op_Ins op)) ops of
             (tr', r) \<Rightarrow> (tr @ tr', r))
      | (tr, Fail err) \<Rightarrow> (tr, Fail err)
      | (tr, Panic) \<Rightarrow> (tr, Panic))"

definition SemanticVerify ::
  "'v VM \<Rightarrow> 'v OperationTx \<Rightarrow> 'v Credential option list \<Rightarrow> 'v call list \<times> unit res" where
  "SemanticVerify vm t creds =
     (case BaseTx_SemanticVerify vm (tx_BaseTx t) creds of
        Some err \<Rightarrow> ([call_BaseTx_SemanticVerify], Fail err)
      | None \<Rightarrow>
         (case opsLoop vm creds (length (base_Ins (tx_BaseTx t))) (tx_Ops t) of
            (tr, r) \<Rightarrow> (call_BaseTx_SemanticVerify # tr, r)))"

section \<open>The codec session\<close>

text \<open>
  Modelled from the spec: the implementation of \<^verbatim>\<open>Packer\<close> is not among the source
  files, only its tests are. A session holds the capacity, the buffer, the read offset
  and the errors met so far, and reports errored once there is one. Packing appends the
  big-endian bytes of the value, or records an overflow and leaves the buffer as it is
  when they would exceed the capacity; unpacking reads at the offset and advances it, or
  records an underflow when too few bytes remain; every call on an errored session does
  nothing.
\<close>

datatype pack_error = errOverflow | errUnderflow | errBadBool

record Packer =
  MaxSize :: nat
  Bytes :: "byte list"
  Offset :: nat
  Errs :: "pack_error list"

definition Errored :: "Packer \<Rightarrow> bool" where
  "Errored p \<longleftrightarrow> Errs p \<noteq> []"

text \<open>Modelled from the spec: appending a fixed run of bytes, and reading one.\<close>

definition PackFixedBytes :: "byte list \<Rightarrow> Packer \<Rightarrow> Packer" where
  "PackFixedBytes bs p =
     (if Errored p then p
      else if MaxSize p < length (Bytes p) + length bs then p\<lparr>Errs := [errOverflow]\<rparr>
      else p\<lparr>Bytes := Bytes p @ bs\<rparr>)"

definition UnpackFixedBytes :: "nat \<Rightarrow> Packer \<Rightarrow> byte list option \<times> Packer" where
  "UnpackFixedBytes n p =
     (if Errored p then (None, p)
      else if length (Bytes p) < Offset p + n then (None, p\<lparr>Errs := [errUnderflow]\<rparr>)
      else (Some (take n (drop (Offset p) (Bytes p))), p\<lparr>Offset := Offset p + n\<rparr>))"

text \<open>Modelled from the spec: the big-endian bytes of a word, and the word of such bytes.\<close>

definition bytes_of :: "nat \<Rightarrow> 'a::len word \<Rightarrow> byte list" where
  "bytes_of n w = map (\<lambda>i. ucast (drop_bit (8 * i) w)) (rev [0 ..< n])"

definition word_of :: "byte list \<Rightarrow> 'a::len word" where
  "word_of bs = foldl (\<lambda>w b. push_bit 8 w OR ucast b) 0 bs"

text \<open>
  Modelled from the spec: the pack calls. A boolean is the byte 0 or 1; a string is its
  length in two bytes followed by its bytes, and fails as a whole when it is longer than
  16 bits can count or does not fit.
\<close>

definition PackByte :: "byte \<Rightarrow> Packer \<Rightarrow> Packer" where
  "PackByte v = PackFixedBytes [v]"

definition PackShort :: "16 word \<Rightarrow> Packer \<Rightarrow> Packer" where
  "PackShort v = PackFixedBytes (bytes_of 2 v)"

definition PackInt :: "32 word \<Rightarrow> Packer \<Rightarrow> Packer" where
  "PackInt v = PackFixedBytes (bytes_of 4 v)"

definition PackLong :: "64 word \<Rightarrow> Packer \<Rightarrow> Packer" where
  "PackLong v = PackFixedBytes (bytes_of 8 v)"

definition PackBool :: "bool \<Rightarrow> Packer \<Rightarrow> Packer" where
  "PackBool v = PackByte (if v then 1 else 0)"

definition PackStr :: "string \<Rightarrow> Packer \<Rightarrow> Packer" where
  "PackStr s p =
     (if Errored p then p
      else if 65535 < length s \<or> MaxSize p < length (Bytes p) + 2 + length s
      then p\<lparr>Errs := [errOverflow]\<rparr>
      else PackFixedBytes (map of_char s) (PackShort (of_nat (length s)) p))"

text \<open>
  Modelled from the spec: the unpack calls, the inverses of the pack calls. A failed
  call returns the zero value of its type.
\<close>

definition unpackWord :: "nat \<Rightarrow> Packer \<Rightarrow> 'a::len word \<times> Packer" where
  "unpackWord n p =
     (case UnpackFixedBytes n p of
        (Some bs, p') \<Rightarrow> (word_of bs, p')
      | (None, p') \<Rightarrow> (0, p'))"

definition UnpackByte :: "Packer \<Rightarrow> byte \<times> Packer" where
  "UnpackByte = unpackWord 1"

definition UnpackShort :: "Packer \<Rightarrow> 16 word \<times> Packer" where
  "UnpackShort = unpackWord 2"

definition UnpackInt :: "Packer \<Rightarrow> 32 word \<times> Packer" where
  "UnpackInt = unpackWord 4"

definition UnpackLong :: "Packer \<Rightarrow> 64 word \<times> Packer" where
  "UnpackLong = unpackWord 8"

definition UnpackBool :: "Packer \<Rightarrow> bool \<times> Packer" where
  "UnpackBool p =
     (case UnpackByte p of
        (b, p') \<Rightarrow>
          if Errored p' then (False, p')
          else if b = 0 then (False, p')
          else if b = 1 then (True, p')
          else (False, p'\<lparr>Errs := [errBadBool]\<rparr>))"

definition UnpackStr :: "Packer \<Rightarrow> string \<times> Packer" where
  "UnpackStr p =
     (case UnpackShort p of
        (n, p') \<Rightarrow>
          (case UnpackFixedBytes (unat n) p' of
             (Some bs, p'') \<Rightarrow> (map (\<lambda>b. char_of (unat b)) bs, p'')
           | (None, p'') \<Rightarrow> ([], p'')))"

text \<open>
  The calls a caller can make on a session, and the session after one call and after a
  list of calls; \<open>encoder\<close> and \<open>decoder\<close> are the two ways the tests construct a
  session (\<^verbatim>\<open>Packer{MaxSize: n}\<close> and \<^verbatim>\<open>Packer{Bytes: bs}\<close>).
\<close>

datatype pcall =
    PackByte_call byte
  | PackShort_call "16 word"
  | PackInt_call "32 word"
  | PackLong_call "64 word"
  | PackBool_call bool
  | PackStr_call string
  | UnpackByte_call
  | UnpackShort_call
  | UnpackInt_call
  | UnpackLong_call
  | UnpackBool_call
  | UnpackStr_call

fun session_call :: "pcall \<Rightarrow> Packer \<Rightarrow> Packer" where
  "session_call (PackByte_call v) p = PackByte v p"
| "session_call (PackShort_call v) p = PackShort v p"
| "session_call (PackInt_call v) p = PackInt v p"
| "session_call (PackLong_call v) p = PackLong v p"
| "session_call (PackBool_call v) p = PackBool v p"
| "session_call (PackStr_call v) p = PackStr v p"
| "session_call UnpackByte_call p = snd (UnpackByte p)"
| "session_call UnpackShort_call p = snd (UnpackShort p)"
| "session_call UnpackInt_call p = snd (UnpackInt p)"
| "session_call UnpackLong_call p = snd (UnpackLong p)"
| "session_call UnpackBool_call p = snd (UnpackBool p)"
| "session_call UnpackStr_call p = snd (UnpackStr p)"

definition session :: "pcall list \<Rightarrow> Packer \<Rightarrow> Packer" where
  "session cs p = foldl (\<lambda>q c. session_call c q) p cs"

definition encoder :: "nat \<Rightarrow> Packer" where
  "encoder n = \<lparr>MaxSize = n, Bytes = [], Offset = 0, Errs = []\<rparr>"

definition decoder :: "byte list \<Rightarrow> Packer" where
  "decoder bs = \<lparr>MaxSize = 0, Bytes = bs, Offset = 0, Errs = []\<rparr>"

section \<open>Identifier strings\<close>

text \<open>
  Modelled from the spec: \<^verbatim>\<open>String\<close> and \<^verbatim>\<open>FromString\<close> of an identifier are not
  among the source files, only their tests are. The spec asks for a canonical,
  checksummed, reversible text form over a fixed alphabet, and for \<^verbatim>\<open>FromString\<close> to
  refuse unknown characters, a wrong length and a wrong checksum. The model renders the
  32 bytes followed by a four-byte checksum in base 58, a leading zero byte as the digit
  of zero; the alphabet and the checksum (the last four bytes of the SHA-256 digest) are
  the ones under which the string expected by \<^verbatim>\<open>TestID\<close> comes out.
\<close>

text \<open>
  Modelled from the spec: the checksum, SHA-256 over bytes. The round constants are the
  first 32 bits of the fractional parts of the cube roots of the first 64 primes, the
  initial state those of the square roots of the first 8 primes.
\<close>

definition rotr :: "nat \<Rightarrow> 32 word \<Rightarrow> 32 word" where
  "rotr n x = drop_bit n x OR push_bit (32 - n) x"

definition sha_K :: "32 word list" where
  "sha_K =
    [1116352408, 1899447441, 3049323471, 3921009573, 961987163, 1508970993, 2453635748, 2870763221,
     3624381080, 310598401, 607225278, 1426881987, 1925078388, 2162078206, 2614888103, 3248222580,
     3835390401, 4022224774, 264347078, 604807628, 770255983, 1249150122, 1555081692, 1996064986,
     2554220882, 2821834349, 2952996808, 3210313671, 3336571891, 3584528711, 113926993, 338241895,
     666307205, 773529912, 1294757372, 1396182291, 1695183700, 1986661051, 2177026350, 2456956037,
     2730485921, 2820302411, 3259730800, 3345764771, 3516065817, 3600352804, 4094571909, 275423344,
     430227734, 506948616, 659060556, 883997877, 958139571, 1322822218, 1537002063, 1747873779,
     1955562222, 2024104815, 2227730452, 2361852424, 2428436474, 2756734187, 3204031479, 3329325298]"

type_synonym sha_state =
  "32 word \<times> 32 word \<times> 32 word \<times> 32 word \<times> 32 word \<times> 32 word \<times> 32 word \<times> 32 word"

definition sha_H0 :: sha_state where
  "sha_H0 = (1779033703, 3144134277, 1013904242, 2773480762,
             1359893119, 2600822924, 528734635, 1541459225)"

definition be32 :: "32 word \<Rightarrow> byte list" where
  "be32 w = [ucast (drop_bit 24 w), ucast (drop_bit 16 w), ucast (drop_bit 8 w), ucast w]"

definition be64 :: "64 word \<Rightarrow> byte list" where
  "be64 w = [ucast (drop_bit 56 w), ucast (drop_bit 48 w), ucast (drop_bit 40 w),
             ucast (drop_bit 32 w), ucast (drop_bit 24 w), ucast (drop_bit 16 w),
             ucast (drop_bit 8 w), ucast w]"

fun words_be :: "byte list \<Rightarrow> 32 word list" where
  "words_be (a # b # c # d # rest) =
     (push_bit 24 (ucast a) OR push_bit 16 (ucast b) OR push_bit 8 (ucast c) OR ucast d)
       # words_be rest"
| "words_be rest = []"

definition sha_pad :: "byte list \<Rightarrow> byte list" where
  "sha_pad msg =
     msg @ [0x80] @ replicate ((119 - length msg mod 64) mod 64) 0
       @ be64 (of_nat (8 * length msg))"

fun schedule :: "nat \<Rightarrow> 32 word list \<Rightarrow> 32 word list" where
  "schedule 0 w = w"
| "schedule (Suc n) w =
     (let t = length w;
          s0 = rotr 7 (w ! (t - 15)) XOR rotr 18 (w ! (t - 15)) XOR drop_bit 3 (w ! (t - 15));
          s1 = rotr 17 (w ! (t - 2)) XOR rotr 19 (w ! (t - 2)) XOR drop_bit 10 (w ! (t - 2))
      in schedule n (w @ [s1 + w ! (t - 7) + s0 + w ! (t - 16)]))"

fun sha_round :: "sha_state \<Rightarrow> 32 word \<times> 32 word \<Rightarrow> sha_state" where
  "sha_round (a, b, c, d, e, f, g, h) (k, w) =
     (let t1 = h + (rotr 6 e XOR rotr 11 e XOR rotr 25 e) + ((e AND f) XOR (NOT e AND g)) + k + w;
          t2 = (rotr 2 a XOR rotr 13 a XOR rotr 22 a) + ((a AND b) XOR (a AND c) XOR (b AND c))
      in (t1 + t2, a, b, c, d + t1, e, f, g))"

fun sha_add :: "sha_state \<Rightarrow> sha_state \<Rightarrow> sha_state" where
  "sha_add (a, b, c, d, e, f, g, h) (a', b', c', d', e', f', g', h') =
     (a + a', b + b', c + c', d + d', e + e', f + f', g + g', h + h')"

definition sha_block :: "sha_state \<Rightarrow> byte list \<Rightarrow> sha_state" where
  "sha_block s block = sha_add s (foldl sha_round s (zip sha_K (schedule 48 (words_be block))))"

fun chunks64 :: "nat \<Rightarrow> byte list \<Rightarrow> byte list list" where
  "chunks64 0 bs = []"
| "chunks64 (Suc n) bs = take 64 bs # chunks64 n (drop 64 bs)"

fun sha_digest :: "sha_state \<Rightarrow> byte list" where
  "sha_digest (a, b, c, d, e, f, g, h) =
     be32 a @ be32 b @ be32 c @ be32 d @ be32 e @ be32 f @ be32 g @ be32 h"

definition sha256 :: "byte list \<Rightarrow> byte list" where
  "sha256 msg =
     sha_digest (foldl sha_block sha_H0 (chunks64 (length (sha_pad msg) div 64) (sha_pad msg)))"

definition checksum :: "byte list \<Rightarrow> byte list" where
  "checksum bs = drop 28 (sha256 bs)"

text \<open>
  Modelled from the spec: numbers in a base, most significant digit first; the number
  of leading occurrences of an element; the place of a character in the alphabet.
\<close>

definition b58_alphabet :: string where
  "b58_alphabet = ''123456789ABCDEFGHJKLMNPQRSTUVWXYZabcdefghijkmnopqrstuvwxyz''"

function digits :: "nat \<Rightarrow> nat \<Rightarrow> nat list" where
  "digits b n = (if n = 0 \<or> b < 2 then [] else digits b (n div b) @ [n mod b])"
  by pat_completeness auto
termination
  by (relation "measure snd") auto

definition value_of :: "nat \<Rightarrow> nat list \<Rightarrow> nat" where
  "value_of b ds = foldl (\<lambda>n d. b * n + d) 0 ds"

definition leading :: "'a \<Rightarrow> 'a list \<Rightarrow> nat" where
  "leading z xs = length (takeWhile (\<lambda>x. x = z) xs)"

fun position :: "'a \<Rightarrow> 'a list \<Rightarrow> nat option" where
  "position x [] = None"
| "position x (y # ys) = (if x = y then Some 0 else map_option Suc (position x ys))"

text \<open>Modelled from the spec: the text form of bytes and its inverse.\<close>

definition b58_encode :: "byte list \<Rightarrow> string" where
  "b58_encode bs =
     replicate (leading 0 bs) (CHR ''1'')
       @ map (\<lambda>d. b58_alphabet ! d) (digits 58 (value_of 256 (map unat bs)))"

definition b58_decode :: "string \<Rightarrow> byte list option" where
  "b58_decode s =
     (case those (map (\<lambda>c. position c b58_alphabet) s) of
        None \<Rightarrow> None
      | Some ds \<Rightarrow> Some (replicate (leading 0 ds) 0 @ map of_nat (digits 256 (value_of 58 ds))))"

text \<open>
  Modelled from the spec: \<^verbatim>\<open>String\<close> and \<^verbatim>\<open>FromString\<close>, with the three ways the
  spec names for a string to be refused.
\<close>

datatype decode_error = errInvalidCharacter | errWrongLength | errBadChecksum

definition ID_String :: "ID \<Rightarrow> string" where
  "ID_String i = b58_encode (Key i @ checksum (Key i))"

definition FromString :: "string \<Rightarrow> decode_error + ID" where
  "FromString s =
     (case b58_decode s of
        None \<Rightarrow> Inl errInvalidCharacter
      | Some b \<Rightarrow>
          if length b \<noteq> 36 then Inl errWrongLength
          else if drop 32 b \<noteq> checksum (take 32 b) then Inl errBadChecksum
          else Inr (NewID (take 32 b)))"

section \<open>Reference lists\<close>

text \<open>
  What \<^verbatim>\<open>UTXOs\<close> is expected to append to the outputs of the base transaction: one
  entry per output of every operation, in the order the operations and their outputs are
  declared, each with the asset of its operation; \<open>produced\<close> numbers them from a given
  position on.
\<close>

definition mkUTXO :: "ID \<Rightarrow> nat \<Rightarrow> ID \<times> 'v \<Rightarrow> 'v UTXO" where
  "mkUTXO txID i av =
     \<lparr>utxo_UTXOID = \<lparr>TxID = txID, OutputIndex = of_nat i\<rparr>,
      utxo_AssetID = fst av, utxo_Out = snd av\<rparr>"

definition declaredOutputs :: "'v Operation list \<Rightarrow> (ID \<times> 'v) list" where
  "declaredOutputs ops =
     concat (map (\<lambda>op. map (\<lambda>out. (op_AssetID op, out_Out out)) (op_Outs op)) ops)"

definition produced :: "ID \<Rightarrow> nat \<Rightarrow> (ID \<times> 'v) list \<Rightarrow> 'v UTXO list" where
  "produced txID n avs = map (\<lambda>(i, av). mkUTXO txID i av) (zip [n ..< n + length avs] avs)"

text \<open>
  The input identifiers in the order \<^verbatim>\<open>SyntacticVerify\<close> computes them: those of the
  base inputs, and those of the inputs of the operations in declared order.
\<close>

definition inputIDs :: "'v VM \<Rightarrow> 'v OperableInput list \<Rightarrow> ID list" where
  "inputIDs vm ins = map (\<lambda>inp. InputID vm (in_UTXOID inp)) ins"

definition operationInputIDs :: "'v VM \<Rightarrow> 'v Operation list \<Rightarrow> ID list" where
  "operationInputIDs vm ops = concat (map (\<lambda>op. inputIDs vm (op_Ins op)) ops)"

definition baseInputIDs :: "'v VM \<Rightarrow> 'v BaseTx \<Rightarrow> ID list" where
  "baseInputIDs vm b = map (\<lambda>inp. InputID vm (tin_UTXOID inp)) (base_Ins b)"

text \<open>
  The credential position of the first input of operation \<open>k\<close>: the number of
  base inputs plus the numbers of inputs of the operations before it.
\<close>

definition inputCount :: "'v Operation list \<Rightarrow> nat" where
  "inputCount ops = sum_list (map (\<lambda>op. length (op_Ins op)) ops)"

definition offsetAt :: "'v OperationTx \<Rightarrow> nat \<Rightarrow> nat" where
  "offsetAt t k = length (base_Ins (tx_BaseTx t)) + inputCount (take k (tx_Ops t))"

text \<open>
  The extension invocations of a run, in order, each with the input payloads and the
  credential payloads it was handed.
\<close>

fun isVal :: "'a res \<Rightarrow> bool" where
  "isVal (Val x) = True"
| "isVal (Fail e) = False"
| "isVal Panic = False"

fun extensionArgs :: "'v call list \<Rightarrow> ('v list \<times> 'v list) list" where
  "extensionArgs [] = []"
| "extensionArgs (call_VerifyOperation fx utxos ins creds outs # tr) = (ins, creds) # extensionArgs tr"
| "extensionArgs (c # tr) = extensionArgs tr"

text \<open>
  A run of \<^verbatim>\<open>SemanticVerify\<close> gets as far as input \<open>i\<close> of operation \<open>k\<close> when
  the run on the operations before \<open>k\<close> alone returns \<^verbatim>\<open>nil\<close> and the first
  \<open>i\<close> inputs of operation \<open>k\<close> are resolved without an error; \<open>traceUpTo\<close> is
  the list of calls made until then. With \<open>i\<close> the number of inputs of the operation,
  all its inputs are resolved and the run is at the choice of the extension.
  \<open>hasCredential\<close> says that position \<open>p\<close> of the credential list holds a
  credential.
\<close>

definition inputsResolved ::
  "'v VM \<Rightarrow> 'v OperationTx \<Rightarrow> 'v Credential option list \<Rightarrow> nat \<Rightarrow> nat \<Rightarrow> bool" where
  "inputsResolved vm t creds k i \<longleftrightarrow>
     k < length (tx_Ops t) \<and> i \<le> length (op_Ins (tx_Ops t ! k))
     \<and> snd (SemanticVerify vm (t\<lparr>tx_Ops := take k (tx_Ops t)\<rparr>) creds) = Val ()
     \<and> isVal (snd (insLoop vm creds (offsetAt t k) (op_AssetID (tx_Ops t ! k)) 0
                     (take i (op_Ins (tx_Ops t ! k))) ([], [], [])))"

definition traceUpTo ::
  "'v VM \<Rightarrow> 'v OperationTx \<Rightarrow> 'v Credential option list \<Rightarrow> nat \<Rightarrow> nat \<Rightarrow> 'v call list" where
  "traceUpTo vm t creds k i =
     fst (SemanticVerify vm (t\<lparr>tx_Ops := take k (tx_Ops t)\<rparr>) creds)
     @ fst (insLoop vm creds (offsetAt t k) (op_AssetID (tx_Ops t ! k)) 0
              (take i (op_Ins (tx_Ops t ! k))) ([], [], []))"

definition hasCredential :: "'v Credential option list \<Rightarrow> nat \<Rightarrow> bool" where
  "hasCredential creds p \<longleftrightarrow> p < length creds \<and> creds ! p \<noteq> None"

text \<open>
  The output an input resolves to, before its asset is compared: the one the store
  holds, or else the one at the input's index among the outputs of the ancestor, when the
  ancestor verifies, is not decided and the index passes the range test of line 154.
\<close>

definition resolvedOutput :: "'v VM \<Rightarrow> 'v OperableInput \<Rightarrow> 'v UTXO option" where
  "resolvedOutput vm inp =
     (case state_UTXO vm (InputID vm (in_UTXOID inp)) of
        Some utxo \<Rightarrow> Some utxo
      | None \<Rightarrow>
          (let (inputTx, inputIndex) = InputSource vm (in_UTXOID inp) in
           if parent_Verify vm inputTx = None \<and> \<not> parent_Decided vm inputTx
              \<and> \<not> (of_nat (length (parent_UTXOs vm inputTx)) :: 32 word) \<le> inputIndex
           then Some (parent_UTXOs vm inputTx ! unat inputIndex)
           else None))"

text \<open>
  The pairing described for the credentials: the arguments of an extension invocation
  are aligned with an operation at an offset when the \<open>i\<close>-th input payload is that of
  the \<open>i\<close>-th input and the \<open>i\<close>-th credential payload is that of the credential at
  position \<open>offset + i\<close>.
\<close>

definition mkCred :: "'v \<Rightarrow> 'v Credential option" where
  "mkCred c = Some \<lparr>cred_Cred = c\<rparr>"

definition alignedArgs ::
  "'v Credential option list \<Rightarrow> nat \<Rightarrow> 'v Operation \<Rightarrow> 'v list \<times> 'v list \<Rightarrow> bool" where
  "alignedArgs creds offset op arg \<longleftrightarrow>
     length (fst arg) = length (op_Ins op) \<and> length (snd arg) = length (op_Ins op)
     \<and> (\<forall>i < length (op_Ins op).
           fst arg ! i = in_In (op_Ins op ! i)
           \<and> offset + i < length creds
           \<and> creds ! (offset + i) = Some \<lparr>cred_Cred = snd arg ! i\<rparr>)"

text \<open>
  The dispatch key as described: the first input payload if the operation has an input,
  else the first output payload if it has an output, else none.
\<close>

definition dispatchKey :: "'v Operation \<Rightarrow> 'v option" where
  "dispatchKey op =
     (if op_Ins op \<noteq> [] then Some (in_In (hd (op_Ins op)))
      else if op_Outs op \<noteq> [] then Some (out_Out (hd (op_Outs op)))
      else None)"

section \<open>Example transactions\<close>

text \<open>
  A virtual machine whose collaborators accept everything: the store is empty, no
  ancestor is decided, one extension is registered and it approves every operation.
  Operations count as sorted and unique when their asset identifiers increase strictly
  in the lexicographic order of their bytes.
\<close>

definition vm_ex :: "nat VM" where
  "vm_ex =
     \<lparr>InputID = (\<lambda>u. NewID (Key (TxID u) @ [ucast (OutputIndex u)])),
      InputSource = (\<lambda>u. (TxID u, OutputIndex u)),
      BaseTx_SyntacticVerify = (\<lambda>b. None),
      Operation_Verify = (\<lambda>op. None),
      isSortedAndUniqueOperations =
        (\<lambda>ops. sorted_wrt (\<lambda>a b. Key (op_AssetID a) < Key (op_AssetID b)) ops),
      BaseTx_SemanticVerify = (\<lambda>b creds. None),
      BaseTx_UTXOs = (\<lambda>b. []),
      state_UTXO = (\<lambda>i. None),
      parent_Verify = (\<lambda>i. None),
      parent_Decided = (\<lambda>i. False),
      parent_UTXOs = (\<lambda>i. []),
      getFx = (\<lambda>obj. Inr 0),
      fxs = [\<lambda>utxos ins creds outs. None],
      verifyFxUsage = (\<lambda>i a. True)\<rparr>"

text \<open>One operation with \<open>2 ^ 32 + 1\<close> outputs, and no base output.\<close>

definition tx_wide :: "nat OperationTx" where
  "tx_wide =
     \<lparr>tx_BaseTx = \<lparr>base_ID = NewID [1], base_Ins = []\<rparr>,
      tx_Ops = [\<lparr>op_AssetID = NewID [2], op_Ins = [],
                 op_Outs = replicate (2 ^ 32 + 1) \<lparr>out_Out = 7\<rparr>\<rparr>]\<rparr>"

text \<open>Two base outputs, then two operations with one and two outputs.\<close>

definition vm_two :: "nat VM" where
  "vm_two = vm_ex\<lparr>BaseTx_UTXOs := (\<lambda>b.
      [\<lparr>utxo_UTXOID = \<lparr>TxID = base_ID b, OutputIndex = 0\<rparr>, utxo_AssetID = NewID [9], utxo_Out = 40\<rparr>,
       \<lparr>utxo_UTXOID = \<lparr>TxID = base_ID b, OutputIndex = 1\<rparr>, utxo_AssetID = NewID [9], utxo_Out = 41\<rparr>])\<rparr>"

definition tx_outs :: "nat OperationTx" where
  "tx_outs =
     \<lparr>tx_BaseTx = \<lparr>base_ID = NewID [1], base_Ins = []\<rparr>,
      tx_Ops = [\<lparr>op_AssetID = NewID [2], op_Ins = [], op_Outs = [\<lparr>out_Out = 50\<rparr>]\<rparr>,
                \<lparr>op_AssetID = NewID [3], op_Ins = [], op_Outs = [\<lparr>out_Out = 60\<rparr>, \<lparr>out_Out = 61\<rparr>]\<rparr>]\<rparr>"

text \<open>The same machine, with an operation verifier that rejects every operation.\<close>

definition vm_rej :: "nat VM" where
  "vm_rej = vm_ex\<lparr>Operation_Verify := (\<lambda>op. Some (errOther ''operation rejected''))\<rparr>"

definition utxo_a :: UTXOID where
  "utxo_a = \<lparr>TxID = NewID [10], OutputIndex = 0\<rparr>"

definition utxo_b :: UTXOID where
  "utxo_b = \<lparr>TxID = NewID [10], OutputIndex = 1\<rparr>"

definition utxo_c :: UTXOID where
  "utxo_c = \<lparr>TxID = NewID [11], OutputIndex = 0\<rparr>"

text \<open>
  \<open>tx_dup\<close>: the second operation spends the UTXO that the base input spends.
  \<open>tx_ok\<close>: three different UTXOs, operations in order. \<open>tx_unsorted\<close>: the
  operations of \<open>tx_ok\<close> in the other order. \<open>tx_dup_unsorted\<close>: those of
  \<open>tx_dup\<close> in the other order.
\<close>

definition tx_dup :: "nat OperationTx" where
  "tx_dup =
     \<lparr>tx_BaseTx = \<lparr>base_ID = NewID [1],
                    base_Ins = [\<lparr>tin_UTXOID = utxo_a, tin_AssetID = NewID [2], tin_In = 5\<rparr>]\<rparr>,
      tx_Ops = [\<lparr>op_AssetID = NewID [2], op_Ins = [\<lparr>in_UTXOID = utxo_b, in_In = 6\<rparr>], op_Outs = []\<rparr>,
                \<lparr>op_AssetID = NewID [3], op_Ins = [\<lparr>in_UTXOID = utxo_a, in_In = 7\<rparr>], op_Outs = []\<rparr>]\<rparr>"

definition tx_ok :: "nat OperationTx" where
  "tx_ok =
     \<lparr>tx_BaseTx = \<lparr>base_ID = NewID [1],
                    base_Ins = [\<lparr>tin_UTXOID = utxo_a, tin_AssetID = NewID [2], tin_In = 5\<rparr>]\<rparr>,
      tx_Ops = [\<lparr>op_AssetID = NewID [2], op_Ins = [\<lparr>in_UTXOID = utxo_b, in_In = 6\<rparr>], op_Outs = []\<rparr>,
                \<lparr>op_AssetID = NewID [3], op_Ins = [\<lparr>in_UTXOID = utxo_c, in_In = 7\<rparr>], op_Outs = []\<rparr>]\<rparr>"

definition tx_unsorted :: "nat OperationTx" where
  "tx_unsorted = tx_ok\<lparr>tx_Ops := rev (tx_Ops tx_ok)\<rparr>"

definition tx_dup_unsorted :: "nat OperationTx" where
  "tx_dup_unsorted = tx_dup\<lparr>tx_Ops := rev (tx_Ops tx_dup)\<rparr>"

text \<open>
  A machine with a store and ancestors. The store holds \<open>utxo_a\<close> and \<open>utxo_b\<close>,
  both of asset 2. Transaction 11 is an undecided ancestor with one output, of asset 3;
  transaction 12 is decided. In \<open>vm_unknown\<close> no extension recognises any payload; in
  \<open>vm_incompatible\<close> the extension may not be used for asset 3.
\<close>

definition utxo_d :: UTXOID where
  "utxo_d = \<lparr>TxID = NewID [12], OutputIndex = 0\<rparr>"

definition utxo_e :: UTXOID where
  "utxo_e = \<lparr>TxID = NewID [11], OutputIndex = 5\<rparr>"

definition vm_sem :: "nat VM" where
  "vm_sem = vm_ex
     \<lparr>state_UTXO := (\<lambda>i.
        if i = NewID [10, 0] then Some \<lparr>utxo_UTXOID = utxo_a, utxo_AssetID = NewID [2], utxo_Out = 100\<rparr>
        else if i = NewID [10, 1] then Some \<lparr>utxo_UTXOID = utxo_b, utxo_AssetID = NewID [2], utxo_Out = 101\<rparr>
        else None),
      parent_Decided := (\<lambda>i. i = NewID [12]),
      parent_UTXOs := (\<lambda>i.
        if i = NewID [11] then [\<lparr>utxo_UTXOID = utxo_c, utxo_AssetID = NewID [3], utxo_Out = 200\<rparr>]
        else [])\<rparr>"

definition vm_unknown :: "nat VM" where
  "vm_unknown = vm_sem\<lparr>getFx := (\<lambda>obj. Inl (errOther ''unknown fx''))\<rparr>"

definition vm_incompatible :: "nat VM" where
  "vm_incompatible = vm_sem\<lparr>verifyFxUsage := (\<lambda>fxIndex asset. asset \<noteq> NewID [3])\<rparr>"

text \<open>
  \<open>tx_sem\<close> has one base input and two operations with one input each, the second
  spending the output of the ancestor. In \<open>tx_stale\<close> the second operation spends an
  output of the decided transaction, in \<open>tx_range\<close> an output index the ancestor does
  not have, and in \<open>tx_mismatch\<close> its asset is not the asset of the output it spends.
\<close>

definition tx_sem :: "nat OperationTx" where
  "tx_sem =
     \<lparr>tx_BaseTx = \<lparr>base_ID = NewID [1],
                    base_Ins = [\<lparr>tin_UTXOID = utxo_a, tin_AssetID = NewID [2], tin_In = 5\<rparr>]\<rparr>,
      tx_Ops = [\<lparr>op_AssetID = NewID [2], op_Ins = [\<lparr>in_UTXOID = utxo_b, in_In = 6\<rparr>], op_Outs = []\<rparr>,
                \<lparr>op_AssetID = NewID [3], op_Ins = [\<lparr>in_UTXOID = utxo_c, in_In = 7\<rparr>],
                  op_Outs = [\<lparr>out_Out = 9\<rparr>]\<rparr>]\<rparr>"

definition tx_stale :: "nat OperationTx" where
  "tx_stale = tx_sem\<lparr>tx_Ops :=
     [tx_Ops tx_sem ! 0,
      \<lparr>op_AssetID = NewID [3], op_Ins = [\<lparr>in_UTXOID = utxo_d, in_In = 7\<rparr>], op_Outs = []\<rparr>]\<rparr>"

definition tx_range :: "nat OperationTx" where
  "tx_range = tx_sem\<lparr>tx_Ops :=
     [tx_Ops tx_sem ! 0,
      \<lparr>op_AssetID = NewID [3], op_Ins = [\<lparr>in_UTXOID = utxo_e, in_In = 7\<rparr>], op_Outs = []\<rparr>]\<rparr>"

definition tx_mismatch :: "nat OperationTx" where
  "tx_mismatch = tx_sem\<lparr>tx_Ops :=
     [tx_Ops tx_sem ! 0,
      \<lparr>op_AssetID = NewID [4], op_Ins = [\<lparr>in_UTXOID = utxo_c, in_In = 7\<rparr>], op_Outs = []\<rparr>]\<rparr>"

definition creds3 :: "nat Credential option list" where
  "creds3 = [Some \<lparr>cred_Cred = 70\<rparr>, Some \<lparr>cred_Cred = 71\<rparr>, Some \<lparr>cred_Cred = 72\<rparr>]"

text \<open>
  The keys of the identifier tests: \<^verbatim>\<open>[32]byte{24}\<close> of \<^verbatim>\<open>TestID\<close> and
  \<^verbatim>\<open>[32]byte{'a', 'v', 'a', ' ', 'l', 'a', 'b', 's'}\<close> of \<^verbatim>\<open>TestFromString\<close>; the
  base-58 digits of the first key followed by its checksum, and of the first key followed
  by a checksum whose last byte is one more.
\<close>

definition key_TestID :: "byte list" where
  "key_TestID =
    [24, 0, 0, 0, 0, 0, 0, 0, 0, 0, 0, 0, 0, 0, 0, 0, 0, 0, 0, 0,
     0, 0, 0, 0, 0, 0, 0, 0, 0, 0, 0, 0]"

definition key_TestFromString :: "byte list" where
  "key_TestFromString =
    [97, 118, 97, 32, 108, 97, 98, 115, 0, 0, 0, 0, 0, 0, 0, 0, 0, 0, 0, 0,
     0, 0, 0, 0, 0, 0, 0, 0, 0, 0, 0, 0]"

definition digits_TestID :: "nat list" where
  "digits_TestID =
    [10, 33, 2, 44, 44, 7, 24, 33, 7, 17, 31, 31, 37, 34, 37, 32, 8, 47, 6, 57,
     54, 0, 33, 56, 46, 49, 12, 34, 37, 12, 0, 37, 52, 54, 55, 40, 39, 57, 25, 19,
     50, 45, 35, 18, 48, 15, 46, 21, 51]"

definition digits_flipped :: "nat list" where
  "digits_flipped =
    [10, 33, 2, 44, 44, 7, 24, 33, 7, 17, 31, 31, 37, 34, 37, 32, 8, 47, 6, 57,
     54, 0, 33, 56, 46, 49, 12, 34, 37, 12, 0, 37, 52, 54, 55, 40, 39, 57, 25, 19,
     50, 45, 35, 18, 48, 15, 46, 21, 52]"

section \<open>Unfolding rules of the examples\<close>

lemmas pack_defs =
  PackByte_def PackShort_def PackInt_def PackLong_def PackBool_def PackStr_def
  UnpackByte_def UnpackShort_def UnpackInt_def UnpackLong_def UnpackBool_def UnpackStr_def
  unpackWord_def PackFixedBytes_def UnpackFixedBytes_def

lemmas sem_ex_defs =
  vm_sem_def vm_ex_def vm_unknown_def vm_incompatible_def
  tx_sem_def tx_stale_def tx_range_def tx_mismatch_def creds3_def
  utxo_a_def utxo_b_def utxo_c_def utxo_d_def utxo_e_def

lemmas sem_defs =
  SemanticVerify_def verifyOp_def resolveInput_def fxObj_def
  inputsResolved_def hasCredential_def offsetAt_def inputCount_def traceUpTo_def

section \<open>The produced outputs\<close>

lemma produced_Nil: "produced txID n [] = []"
  by (simp add: produced_def)

lemma produced_Cons: "produced txID n (av # avs) = mkUTXO txID n av # produced txID (Suc n) avs"
proof -
  have "[n ..< n + length (av # avs)] = n # [Suc n ..< Suc n + length avs]"
    by (simp add: upt_conv_Cons del: upt_Suc)
  then show ?thesis by (simp add: produced_def del: upt_Suc)
qed

lemma produced_append:
  "produced txID n (xs @ ys) = produced txID n xs @ produced txID (n + length xs) ys"
  by (induction xs arbitrary: n) (simp_all add: produced_Nil produced_Cons)

lemma length_produced: "length (produced txID n avs) = length avs"
  by (simp add: produced_def)

lemma nth_produced: "j < length avs \<Longrightarrow> produced txID n avs ! j = mkUTXO txID (n + j) (avs ! j)"
  by (simp add: produced_def)

lemma outsLoop_produced:
  "outsLoop txID a us outs = us @ produced txID (length us) (map (\<lambda>out. (a, out_Out out)) outs)"
  by (induction outs arbitrary: us) (simp_all add: produced_Nil produced_Cons mkUTXO_def)

lemma utxoOpsLoop_produced:
  "utxoOpsLoop txID us ops = us @ produced txID (length us) (declaredOutputs ops)"
proof (induction ops arbitrary: us)
  case Nil
  show ?case by (simp add: declaredOutputs_def produced_Nil)
next
  case (Cons op ops)
  have "declaredOutputs (op # ops)
      = map (\<lambda>out. (op_AssetID op, out_Out out)) (op_Outs op) @ declaredOutputs ops"
    by (simp add: declaredOutputs_def)
  then show ?case
    by (simp add: Cons.IH outsLoop_produced produced_append length_produced)
qed

lemma UTXOs_produced:
  "UTXOs vm t = BaseTx_UTXOs vm (tx_BaseTx t)
     @ produced (base_ID (tx_BaseTx t)) (length (BaseTx_UTXOs vm (tx_BaseTx t)))
         (declaredOutputs (tx_Ops t))"
  by (simp add: UTXOs_def utxoOpsLoop_produced)

text \<open>
  Claim C10, as amended. \<^verbatim>\<open>UTXOs\<close> returns the list that \<^verbatim>\<open>BaseTx.UTXOs\<close>
  returned, unchanged, followed by one UTXO for every output of every operation, in the
  declared order of operations and outputs. The appended UTXO at position \<open>i\<close> of the
  returned list carries the cached identifier of the transaction, the asset of its
  operation, the payload of its output, and the output index \<^verbatim>\<open>uint32(i)\<close>: read as
  a number it is \<open>i mod 2 ^ 32\<close>, hence \<open>i\<close> itself for every position below
  \<open>2 ^ 32\<close>.
\<close>

theorem UTXOs_positions:
  "take (length (BaseTx_UTXOs vm (tx_BaseTx t))) (UTXOs vm t) = BaseTx_UTXOs vm (tx_BaseTx t)
   \<and> length (UTXOs vm t)
       = length (BaseTx_UTXOs vm (tx_BaseTx t)) + length (declaredOutputs (tx_Ops t))
   \<and> (\<forall>j < length (declaredOutputs (tx_Ops t)).
        UTXOs vm t ! (length (BaseTx_UTXOs vm (tx_BaseTx t)) + j)
          = \<lparr>utxo_UTXOID = \<lparr>TxID = base_ID (tx_BaseTx t),
                            OutputIndex = of_nat (length (BaseTx_UTXOs vm (tx_BaseTx t)) + j)\<rparr>,
             utxo_AssetID = fst (declaredOutputs (tx_Ops t) ! j),
             utxo_Out = snd (declaredOutputs (tx_Ops t) ! j)\<rparr>
        \<and> unat (OutputIndex (utxo_UTXOID (UTXOs vm t ! (length (BaseTx_UTXOs vm (tx_BaseTx t)) + j))))
          = (length (BaseTx_UTXOs vm (tx_BaseTx t)) + j) mod 2 ^ 32)"
proof -
  let ?base = "BaseTx_UTXOs vm (tx_BaseTx t)"
  let ?d = "declaredOutputs (tx_Ops t)"
  have eq: "UTXOs vm t = ?base @ produced (base_ID (tx_BaseTx t)) (length ?base) ?d"
    by (rule UTXOs_produced)
  have nth: "UTXOs vm t ! (length ?base + j) = mkUTXO (base_ID (tx_BaseTx t)) (length ?base + j) (?d ! j)"
    if "j < length ?d" for j
    using that by (simp add: eq nth_append nth_produced)
  have idx: "unat (of_nat n :: 32 word) = n mod 2 ^ 32" for n
    by (simp add: unat_of_nat)
  have len: "length (UTXOs vm t) = length ?base + length ?d"
    by (simp add: eq length_produced)
  have pre: "take (length ?base) (UTXOs vm t) = ?base"
    by (simp add: eq)
  show ?thesis
    using len pre by (simp add: nth idx mkUTXO_def del: of_nat_add)
qed

theorem UTXOs_positions_witness:
  "(2::nat) < length (declaredOutputs (tx_Ops tx_outs))
   \<and> UTXOs vm_two tx_outs ! 4
       = \<lparr>utxo_UTXOID = \<lparr>TxID = NewID [1], OutputIndex = 4\<rparr>, utxo_AssetID = NewID [3], utxo_Out = 61\<rparr>
   \<and> unat (OutputIndex (utxo_UTXOID (UTXOs vm_two tx_outs ! 4))) = 4
   \<and> take 2 (UTXOs vm_two tx_outs) = BaseTx_UTXOs vm_two (tx_BaseTx tx_outs)
   \<and> length (UTXOs vm_two tx_outs) = 5"
  using UTXOs_positions [of vm_two tx_outs]
  by (simp add: UTXOs_def vm_two_def vm_ex_def tx_outs_def declaredOutputs_def)

text \<open>
  The claim as stated, output index equal to the position, fails beyond 32 bits: the
  output appended at position \<open>2 ^ 32\<close> gets the index 0.
\<close>

lemma UTXOs_wide_index:
  "OutputIndex (utxo_UTXOID (UTXOs vm_ex tx_wide ! (2 ^ 32))) = 0"
proof -
  have d: "declaredOutputs (tx_Ops tx_wide) = replicate (2 ^ 32 + 1) (NewID [2], 7)"
    by (simp add: declaredOutputs_def tx_wide_def del: replicate_Suc)
  have "UTXOs vm_ex tx_wide = produced (NewID [1]) 0 (replicate (2 ^ 32 + 1) (NewID [2], 7))"
    using UTXOs_produced [of vm_ex tx_wide] d by (simp add: vm_ex_def tx_wide_def)
  moreover have "produced (NewID [1]) 0 (replicate (2 ^ 32 + 1) (NewID [2], 7::nat)) ! (2 ^ 32)
      = mkUTXO (NewID [1]) (0 + 2 ^ 32) (replicate (2 ^ 32 + 1) (NewID [2], 7) ! (2 ^ 32))"
    by (rule nth_produced) simp
  ultimately show ?thesis by (simp add: mkUTXO_def)
qed

theorem UTXOs_index_counterexample:
  "(2 ^ 32 :: nat) < length (UTXOs vm_ex tx_wide)
   \<and> unat (OutputIndex (utxo_UTXOID (UTXOs vm_ex tx_wide ! (2 ^ 32)))) \<noteq> 2 ^ 32"
proof -
  have "length (UTXOs vm_ex tx_wide) = 2 ^ 32 + 1"
    using UTXOs_produced [of vm_ex tx_wide]
    by (simp add: length_produced declaredOutputs_def tx_wide_def vm_ex_def del: replicate_Suc)
  then show ?thesis using UTXOs_wide_index by simp
qed

section \<open>Double spends and the order of operations\<close>

lemma baseInputs_set: "baseInputs vm b = set (baseInputIDs vm b)"
proof -
  have f: "foldl (\<lambda>inputs inp. insert (InputID vm (tin_UTXOID inp)) inputs) S xs
      = S \<union> set (map (\<lambda>inp. InputID vm (tin_UTXOID inp)) xs)"
    for S and xs :: "'a TransferableInput list"
    by (induction xs arbitrary: S) auto
  show ?thesis unfolding baseInputs_def baseInputIDs_def f by simp
qed

lemma synInsLoop_eq:
  "synInsLoop vm S ins =
     (if distinct (inputIDs vm ins) \<and> set (inputIDs vm ins) \<inter> S = {}
      then Inr (S \<union> set (inputIDs vm ins)) else Inl errDoubleSpend)"
  by (induction ins arbitrary: S) (auto simp: inputIDs_def Let_def)

lemma operationInputIDs_Cons:
  "operationInputIDs vm (op # ops) = inputIDs vm (op_Ins op) @ operationInputIDs vm ops"
  by (simp add: operationInputIDs_def)

text \<open>The loop over the operations passes exactly when every operation verifies and no
  input identifier repeats.\<close>

lemma synOpsLoop_None_iff:
  "synOpsLoop vm S ops = None \<longleftrightarrow>
     (\<forall>op \<in> set ops. Operation_Verify vm op = None)
     \<and> distinct (operationInputIDs vm ops) \<and> set (operationInputIDs vm ops) \<inter> S = {}"
proof (induction ops arbitrary: S)
  case Nil
  show ?case by (simp add: operationInputIDs_def)
next
  case (Cons op ops)
  show ?case
  proof (cases "Operation_Verify vm op")
    case (Some e)
    then show ?thesis by simp
  next
    case None
    then show ?thesis
      by (auto simp: synInsLoop_eq Cons.IH operationInputIDs_Cons)
  qed
qed

text \<open>An error of the loop is the error of an operation's own verification, or the
  double-spend error at a repeated identifier.\<close>

lemma synOpsLoop_Some:
  "synOpsLoop vm S ops = Some e \<Longrightarrow>
     (\<exists>op \<in> set ops. Operation_Verify vm op = Some e)
     \<or> (e = errDoubleSpend
         \<and> \<not> (distinct (operationInputIDs vm ops) \<and> set (operationInputIDs vm ops) \<inter> S = {}))"
proof (induction ops arbitrary: S)
  case Nil
  then show ?case by simp
next
  case (Cons op ops)
  show ?case
  proof (cases "Operation_Verify vm op")
    case (Some e')
    then show ?thesis using Cons.prems by simp
  next
    case None
    show ?thesis
    proof (cases "distinct (inputIDs vm (op_Ins op)) \<and> set (inputIDs vm (op_Ins op)) \<inter> S = {}")
      case True
      then have "synOpsLoop vm (S \<union> set (inputIDs vm (op_Ins op))) ops = Some e"
        using Cons.prems None by (simp add: synInsLoop_eq)
      from Cons.IH [OF this] show ?thesis
        by (auto simp: operationInputIDs_Cons)
    next
      case False
      have "synInsLoop vm S (op_Ins op) = Inl errDoubleSpend"
        by (subst synInsLoop_eq) (rule if_not_P [OF False])
      then have "e = errDoubleSpend"
        using Cons.prems None by simp
      then show ?thesis using False by (auto simp: operationInputIDs_Cons)
    qed
  qed
qed

lemma synOpsLoop_verified:
  assumes "\<forall>op \<in> set ops. Operation_Verify vm op = None"
  shows "synOpsLoop vm S ops =
     (if distinct (operationInputIDs vm ops) \<and> set (operationInputIDs vm ops) \<inter> S = {}
      then None else Some errDoubleSpend)"
proof (cases "synOpsLoop vm S ops")
  case None
  then show ?thesis using synOpsLoop_None_iff [of vm S ops] by simp
next
  case (Some e)
  then show ?thesis using synOpsLoop_Some [OF Some] assms by auto
qed

lemma synOpsLoop_prefix:
  "synOpsLoop vm S pre = Some e \<Longrightarrow> synOpsLoop vm S (pre @ rest) = Some e"
  by (induction pre arbitrary: S) (auto split: option.splits sum.splits)

text \<open>
  Claim C1, as amended. For a non-nil transaction whose base transaction verifies: if
  among the operations up to some point, all of which pass their own verification, an
  input identifier equals one consumed by a base input or by an earlier operation input,
  then \<^verbatim>\<open>SyntacticVerify\<close> returns the double-spend error. And if the input identifiers
  of the operations are pairwise distinct and differ from those of the base inputs, the
  check of \<^verbatim>\<open>SyntacticVerify\<close> does not raise the double-spend error: the result is
  that error only if the verification of the base transaction or of an operation
  returned it.
\<close>

theorem SyntacticVerify_double_spend:
  "(tx_Ops t = pre @ post
    \<and> BaseTx_SyntacticVerify vm (tx_BaseTx t) = None
    \<and> (\<forall>op \<in> set pre. Operation_Verify vm op = None)
    \<and> \<not> (distinct (operationInputIDs vm pre)
          \<and> set (operationInputIDs vm pre) \<inter> set (baseInputIDs vm (tx_BaseTx t)) = {})
    \<longrightarrow> SyntacticVerify vm (Some t) = Some errDoubleSpend)
   \<and> (distinct (operationInputIDs vm (tx_Ops t))
    \<and> set (operationInputIDs vm (tx_Ops t)) \<inter> set (baseInputIDs vm (tx_BaseTx t)) = {}
    \<and> BaseTx_SyntacticVerify vm (tx_BaseTx t) \<noteq> Some errDoubleSpend
    \<and> (\<forall>op \<in> set (tx_Ops t). Operation_Verify vm op \<noteq> Some errDoubleSpend)
    \<longrightarrow> SyntacticVerify vm (Some t) \<noteq> Some errDoubleSpend)"
proof (intro conjI impI)
  assume a: "tx_Ops t = pre @ post
    \<and> BaseTx_SyntacticVerify vm (tx_BaseTx t) = None
    \<and> (\<forall>op \<in> set pre. Operation_Verify vm op = None)
    \<and> \<not> (distinct (operationInputIDs vm pre)
          \<and> set (operationInputIDs vm pre) \<inter> set (baseInputIDs vm (tx_BaseTx t)) = {})"
  then have "synOpsLoop vm (baseInputs vm (tx_BaseTx t)) pre = Some errDoubleSpend"
    using synOpsLoop_verified [of pre vm "baseInputs vm (tx_BaseTx t)"]
    by (auto simp: baseInputs_set)
  then have "synOpsLoop vm (baseInputs vm (tx_BaseTx t)) (tx_Ops t) = Some errDoubleSpend"
    using a synOpsLoop_prefix by metis
  then show "SyntacticVerify vm (Some t) = Some errDoubleSpend"
    using a by (simp add: SyntacticVerify_def)
next
  assume b: "distinct (operationInputIDs vm (tx_Ops t))
    \<and> set (operationInputIDs vm (tx_Ops t)) \<inter> set (baseInputIDs vm (tx_BaseTx t)) = {}
    \<and> BaseTx_SyntacticVerify vm (tx_BaseTx t) \<noteq> Some errDoubleSpend
    \<and> (\<forall>op \<in> set (tx_Ops t). Operation_Verify vm op \<noteq> Some errDoubleSpend)"
  show "SyntacticVerify vm (Some t) \<noteq> Some errDoubleSpend"
  proof
    assume c: "SyntacticVerify vm (Some t) = Some errDoubleSpend"
    with b have "synOpsLoop vm (baseInputs vm (tx_BaseTx t)) (tx_Ops t) = Some errDoubleSpend"
      by (auto simp: SyntacticVerify_def split: option.splits if_splits)
    from synOpsLoop_Some [OF this] b show False
      by (auto simp: baseInputs_set)
  qed
qed

theorem SyntacticVerify_double_spend_witness:
  "tx_Ops tx_dup = tx_Ops tx_dup @ []
   \<and> BaseTx_SyntacticVerify vm_ex (tx_BaseTx tx_dup) = None
   \<and> Operation_Verify vm_ex (tx_Ops tx_dup ! 0) = None
   \<and> Operation_Verify vm_ex (tx_Ops tx_dup ! 1) = None
   \<and> operationInputIDs vm_ex (tx_Ops tx_dup) ! 1 = baseInputIDs vm_ex (tx_BaseTx tx_dup) ! 0
   \<and> SyntacticVerify vm_ex (Some tx_dup) = Some errDoubleSpend
   \<and> distinct (operationInputIDs vm_ex (tx_Ops tx_ok))
   \<and> set (operationInputIDs vm_ex (tx_Ops tx_ok)) \<inter> set (baseInputIDs vm_ex (tx_BaseTx tx_ok)) = {}
   \<and> SyntacticVerify vm_ex (Some tx_ok) \<noteq> Some errDoubleSpend"
  using SyntacticVerify_double_spend [of tx_dup "tx_Ops tx_dup" "[]" vm_ex]
    SyntacticVerify_double_spend [of tx_ok "tx_Ops tx_ok" "[]" vm_ex]
  by (simp add: tx_dup_def tx_ok_def vm_ex_def operationInputIDs_def inputIDs_def baseInputIDs_def
      utxo_a_def utxo_b_def utxo_c_def)

text \<open>
  The claim as stated fails where an earlier check ends the run: in \<open>tx_dup\<close> an
  operation input has the identifier of the base input, but the operation verifier of
  \<open>vm_rej\<close> rejects the first operation, and its error is what is returned.
\<close>

theorem SyntacticVerify_double_spend_counterexample:
  "InputID vm_rej (in_UTXOID (op_Ins (tx_Ops tx_dup ! 1) ! 0))
     = InputID vm_rej (tin_UTXOID (base_Ins (tx_BaseTx tx_dup) ! 0))
   \<and> SyntacticVerify vm_rej (Some tx_dup) = Some (errOther ''operation rejected'')
   \<and> SyntacticVerify vm_rej (Some tx_dup) \<noteq> Some errDoubleSpend"
  by (simp add: SyntacticVerify_def vm_rej_def vm_ex_def tx_dup_def baseInputs_def)

text \<open>
  Claim C5. The not-sorted-unique error is the last check of \<^verbatim>\<open>SyntacticVerify\<close>:
  provided the collaborators do not themselves return that error, it is the result
  exactly when the base transaction verified, every operation verified, no input was
  spent twice, and the operation list is not sorted and unique. When all the earlier
  checks pass and the list is sorted and unique, the transaction passes.
\<close>

theorem SyntacticVerify_not_sorted_unique:
  assumes "BaseTx_SyntacticVerify vm (tx_BaseTx t) \<noteq> Some errOperationsNotSortedUnique"
    and "\<forall>op \<in> set (tx_Ops t). Operation_Verify vm op \<noteq> Some errOperationsNotSortedUnique"
  shows "(SyntacticVerify vm (Some t) = Some errOperationsNotSortedUnique \<longleftrightarrow>
            BaseTx_SyntacticVerify vm (tx_BaseTx t) = None
            \<and> (\<forall>op \<in> set (tx_Ops t). Operation_Verify vm op = None)
            \<and> distinct (operationInputIDs vm (tx_Ops t))
            \<and> set (operationInputIDs vm (tx_Ops t)) \<inter> set (baseInputIDs vm (tx_BaseTx t)) = {}
            \<and> \<not> isSortedAndUniqueOperations vm (tx_Ops t))
       \<and> (BaseTx_SyntacticVerify vm (tx_BaseTx t) = None
            \<and> (\<forall>op \<in> set (tx_Ops t). Operation_Verify vm op = None)
            \<and> distinct (operationInputIDs vm (tx_Ops t))
            \<and> set (operationInputIDs vm (tx_Ops t)) \<inter> set (baseInputIDs vm (tx_BaseTx t)) = {}
            \<and> isSortedAndUniqueOperations vm (tx_Ops t)
          \<longrightarrow> SyntacticVerify vm (Some t) = None)"
proof -
  let ?S = "baseInputs vm (tx_BaseTx t)"
  let ?reached = "BaseTx_SyntacticVerify vm (tx_BaseTx t) = None
            \<and> (\<forall>op \<in> set (tx_Ops t). Operation_Verify vm op = None)
            \<and> distinct (operationInputIDs vm (tx_Ops t))
            \<and> set (operationInputIDs vm (tx_Ops t)) \<inter> set (baseInputIDs vm (tx_BaseTx t)) = {}"
  have reached: "?reached \<longleftrightarrow>
      BaseTx_SyntacticVerify vm (tx_BaseTx t) = None \<and> synOpsLoop vm ?S (tx_Ops t) = None"
    by (simp add: synOpsLoop_None_iff baseInputs_set)
  have loop: "synOpsLoop vm ?S (tx_Ops t) \<noteq> Some errOperationsNotSortedUnique"
  proof
    assume "synOpsLoop vm ?S (tx_Ops t) = Some errOperationsNotSortedUnique"
    from synOpsLoop_Some [OF this] assms(2) show False by auto
  qed
  have 1: "SyntacticVerify vm (Some t) = Some errOperationsNotSortedUnique \<longleftrightarrow>
      ?reached \<and> \<not> isSortedAndUniqueOperations vm (tx_Ops t)"
    unfolding reached using assms(1) loop
    by (auto simp: SyntacticVerify_def split: option.splits)
  have 2: "?reached \<and> isSortedAndUniqueOperations vm (tx_Ops t)
      \<longrightarrow> SyntacticVerify vm (Some t) = None"
    unfolding reached by (simp add: SyntacticVerify_def)
  show ?thesis using 1 2 by blast
qed

theorem SyntacticVerify_not_sorted_unique_witness:
  "BaseTx_SyntacticVerify vm_ex (tx_BaseTx tx_unsorted) \<noteq> Some errOperationsNotSortedUnique
   \<and> Operation_Verify vm_ex (tx_Ops tx_unsorted ! 0) \<noteq> Some errOperationsNotSortedUnique
   \<and> Operation_Verify vm_ex (tx_Ops tx_unsorted ! 1) \<noteq> Some errOperationsNotSortedUnique
   \<and> \<not> isSortedAndUniqueOperations vm_ex (tx_Ops tx_unsorted)
   \<and> SyntacticVerify vm_ex (Some tx_unsorted) = Some errOperationsNotSortedUnique
   \<and> isSortedAndUniqueOperations vm_ex (tx_Ops tx_ok)
   \<and> SyntacticVerify vm_ex (Some tx_ok) = None
   \<and> SyntacticVerify vm_ex (Some tx_dup_unsorted) = Some errDoubleSpend"
  using SyntacticVerify_not_sorted_unique [of vm_ex tx_unsorted]
    SyntacticVerify_not_sorted_unique [of vm_ex tx_ok]
    SyntacticVerify_not_sorted_unique [of vm_ex tx_dup_unsorted]
  by (simp add: tx_unsorted_def tx_dup_unsorted_def tx_dup_def tx_ok_def vm_ex_def
      SyntacticVerify_def baseInputs_def
      operationInputIDs_def inputIDs_def baseInputIDs_def utxo_a_def utxo_b_def utxo_c_def)

section \<open>Runs of the semantic verification\<close>

lemma extensionArgs_append: "extensionArgs (xs @ ys) = extensionArgs xs @ extensionArgs ys"
  by (induction xs rule: extensionArgs.induct) simp_all

lemma resolveInput_no_extension: "extensionArgs (fst (resolveInput vm a inp)) = []"
  by (simp add: resolveInput_def Let_def split: option.splits prod.splits)

lemma insLoop_no_extension:
  "extensionArgs (fst (insLoop vm creds off a i ins acc)) = []"
proof (induction ins arbitrary: i acc)
  case Nil
  show ?case by simp
next
  case (Cons inp rest)
  obtain us xs cs where acc: "acc = (us, xs, cs)" by (cases acc) auto
  show ?case
    using resolveInput_no_extension [of vm a inp] Cons.IH
    by (simp add: acc case_prod_beta extensionArgs_append split: option.splits res.splits)
qed

lemma insLoop_append:
  "insLoop vm creds off a i (xs @ ys) acc =
     (case insLoop vm creds off a i xs acc of
        (tr, Val acc') \<Rightarrow>
          (case insLoop vm creds off a (i + length xs) ys acc' of (tr', r) \<Rightarrow> (tr @ tr', r))
      | (tr, Fail e) \<Rightarrow> (tr, Fail e)
      | (tr, Panic) \<Rightarrow> (tr, Panic))"
proof (induction xs arbitrary: i acc)
  case Nil
  show ?case by (simp split: prod.splits)
next
  case (Cons inp rest)
  obtain us xs cs where acc: "acc = (us, xs, cs)" by (cases acc) auto
  show ?case
    by (simp add: acc Cons.IH split: option.splits prod.splits res.splits)
qed

lemma opsLoop_append:
  "opsLoop vm creds off (xs @ ys) =
     (case opsLoop vm creds off xs of
        (tr, Val u) \<Rightarrow>
          (case opsLoop vm creds (off + inputCount xs) ys of (tr', r) \<Rightarrow> (tr @ tr', r))
      | (tr, Fail e) \<Rightarrow> (tr, Fail e)
      | (tr, Panic) \<Rightarrow> (tr, Panic))"
proof (induction xs arbitrary: off)
  case Nil
  show ?case by (simp add: inputCount_def split: prod.splits)
next
  case (Cons op rest)
  show ?case
    by (simp add: Cons.IH inputCount_def add.assoc split: option.splits prod.splits res.splits)
qed

lemma insLoop_Cons_prefix:
  assumes "hasCredential creds (i + off)"
  shows "prefix (fst (resolveInput vm a inp)) (fst (insLoop vm creds off a i (inp # rest) acc))"
    and "snd (resolveInput vm a inp) = Fail e \<Longrightarrow>
         insLoop vm creds off a i (inp # rest) acc = (fst (resolveInput vm a inp), Fail e)"
    and "snd (resolveInput vm a inp) = Panic \<Longrightarrow>
         insLoop vm creds off a i (inp # rest) acc = (fst (resolveInput vm a inp), Panic)"
proof -
  obtain us xs cs where acc: "acc = (us, xs, cs)" by (cases acc) auto
  obtain c where c: "creds ! (i + off) = Some c" and lt: "i + off < length creds"
    using assms by (auto simp: hasCredential_def)
  show "prefix (fst (resolveInput vm a inp)) (fst (insLoop vm creds off a i (inp # rest) acc))"
    using c lt by (simp add: acc case_prod_beta split: res.splits)
  show "snd (resolveInput vm a inp) = Fail e \<Longrightarrow>
         insLoop vm creds off a i (inp # rest) acc = (fst (resolveInput vm a inp), Fail e)"
    using c lt by (simp add: acc case_prod_beta split: res.splits)
  show "snd (resolveInput vm a inp) = Panic \<Longrightarrow>
         insLoop vm creds off a i (inp # rest) acc = (fst (resolveInput vm a inp), Panic)"
    using c lt by (simp add: acc case_prod_beta split: res.splits)
qed

lemma insLoop_at:
  assumes "isVal (snd (insLoop vm creds off a 0 (take i ins) acc))"
    and "i < length ins" and "hasCredential creds (i + off)"
  shows "prefix (fst (insLoop vm creds off a 0 (take i ins) acc) @ fst (resolveInput vm a (ins ! i)))
           (fst (insLoop vm creds off a 0 ins acc))"
    and "snd (resolveInput vm a (ins ! i)) = Fail e \<Longrightarrow>
         insLoop vm creds off a 0 ins acc
           = (fst (insLoop vm creds off a 0 (take i ins) acc) @ fst (resolveInput vm a (ins ! i)), Fail e)"
    and "snd (resolveInput vm a (ins ! i)) = Panic \<Longrightarrow>
         insLoop vm creds off a 0 ins acc
           = (fst (insLoop vm creds off a 0 (take i ins) acc) @ fst (resolveInput vm a (ins ! i)), Panic)"
proof -
  obtain tr1 acc1 where pre: "insLoop vm creds off a 0 (take i ins) acc = (tr1, Val acc1)"
    using assms(1) by (cases "insLoop vm creds off a 0 (take i ins) acc"; cases "snd (insLoop vm creds off a 0 (take i ins) acc)") auto
  have ins: "ins = take i ins @ (ins ! i) # drop (Suc i) ins"
    using assms(2) by (simp add: id_take_nth_drop)
  have len: "length (take i ins) = i" using assms(2) by simp
  have whole: "insLoop vm creds off a 0 ins acc =
      (case insLoop vm creds off a i ((ins ! i) # drop (Suc i) ins) acc1 of (tr', r) \<Rightarrow> (tr1 @ tr', r))"
    using insLoop_append [of vm creds off a 0 "take i ins" "(ins ! i) # drop (Suc i) ins" acc] assms(2)
    by (simp add: pre ins [symmetric] min_absorb2)
  note step = insLoop_Cons_prefix [OF assms(3), where vm = vm and a = a and inp = "ins ! i"
      and rest = "drop (Suc i) ins" and acc = acc1]
  show "prefix (fst (insLoop vm creds off a 0 (take i ins) acc) @ fst (resolveInput vm a (ins ! i)))
           (fst (insLoop vm creds off a 0 ins acc))"
    using step(1) by (simp add: whole pre case_prod_beta)
  show "snd (resolveInput vm a (ins ! i)) = Fail e \<Longrightarrow>
         insLoop vm creds off a 0 ins acc
           = (fst (insLoop vm creds off a 0 (take i ins) acc) @ fst (resolveInput vm a (ins ! i)), Fail e)"
    using step(2) by (simp add: whole pre)
  show "snd (resolveInput vm a (ins ! i)) = Panic \<Longrightarrow>
         insLoop vm creds off a 0 ins acc
           = (fst (insLoop vm creds off a 0 (take i ins) acc) @ fst (resolveInput vm a (ins ! i)), Panic)"
    using step(3) by (simp add: whole pre)
qed

lemma verifyOp_prefix:
  "prefix (fst (insLoop vm creds off (op_AssetID op) 0 (op_Ins op) ([], [], []))) (fst (verifyOp vm creds off op))"
  by (simp add: verifyOp_def Let_def case_prod_beta split: res.splits sum.splits option.splits)

lemma verifyOp_Fail:
  "insLoop vm creds off (op_AssetID op) 0 (op_Ins op) ([], [], []) = (tr, Fail e)
   \<Longrightarrow> verifyOp vm creds off op = (tr, Fail e)"
  by (simp add: verifyOp_def)

lemma verifyOp_Panic:
  "insLoop vm creds off (op_AssetID op) 0 (op_Ins op) ([], [], []) = (tr, Panic)
   \<Longrightarrow> verifyOp vm creds off op = (tr, Panic)"
  by (simp add: verifyOp_def)

lemma opsLoop_Cons_prefix:
  "prefix (fst (verifyOp vm creds off op)) (fst (opsLoop vm creds off (op # ops)))"
  by (simp add: case_prod_beta split: res.splits)

lemma opsLoop_Cons_Fail:
  "verifyOp vm creds off op = (tr, Fail e) \<Longrightarrow> opsLoop vm creds off (op # ops) = (tr, Fail e)"
  by simp

lemma opsLoop_Cons_Panic:
  "verifyOp vm creds off op = (tr, Panic) \<Longrightarrow> opsLoop vm creds off (op # ops) = (tr, Panic)"
  by simp

text \<open>The run on the whole transaction continues the run on its first \<open>k\<close> operations.\<close>

lemma SemanticVerify_split:
  assumes "k < length (tx_Ops t)"
    and "snd (SemanticVerify vm (t\<lparr>tx_Ops := take k (tx_Ops t)\<rparr>) creds) = Val ()"
  shows "SemanticVerify vm t creds =
     (fst (SemanticVerify vm (t\<lparr>tx_Ops := take k (tx_Ops t)\<rparr>) creds)
        @ fst (opsLoop vm creds (offsetAt t k) (tx_Ops t ! k # drop (Suc k) (tx_Ops t))),
      snd (opsLoop vm creds (offsetAt t k) (tx_Ops t ! k # drop (Suc k) (tx_Ops t))))"
proof -
  let ?off = "length (base_Ins (tx_BaseTx t))"
  have base: "BaseTx_SemanticVerify vm (tx_BaseTx t) creds = None"
    using assms(2) by (auto simp: SemanticVerify_def split: option.splits)
  obtain tr0 where pre: "opsLoop vm creds ?off (take k (tx_Ops t)) = (tr0, Val ())"
    using assms(2) base
    by (cases "opsLoop vm creds ?off (take k (tx_Ops t))") (auto simp: SemanticVerify_def)
  have ops: "tx_Ops t = take k (tx_Ops t) @ (tx_Ops t ! k # drop (Suc k) (tx_Ops t))"
    using assms(1) by (simp add: id_take_nth_drop)
  have "opsLoop vm creds ?off (tx_Ops t) =
      (case opsLoop vm creds (offsetAt t k) (tx_Ops t ! k # drop (Suc k) (tx_Ops t)) of
         (tr', r) \<Rightarrow> (tr0 @ tr', r))"
    using opsLoop_append [of vm creds ?off "take k (tx_Ops t)" "tx_Ops t ! k # drop (Suc k) (tx_Ops t)"]
    by (simp add: pre offsetAt_def ops [symmetric])
  then show ?thesis
    by (simp add: SemanticVerify_def base pre case_prod_beta)
qed

lemma reach_input:
  assumes R: "inputsResolved vm t creds k i"
    and lt: "i < length (op_Ins (tx_Ops t ! k))"
    and hc: "hasCredential creds (offsetAt t k + i)"
  shows "prefix (traceUpTo vm t creds k i
                   @ fst (resolveInput vm (op_AssetID (tx_Ops t ! k)) (op_Ins (tx_Ops t ! k) ! i)))
           (fst (SemanticVerify vm t creds))"
    and "snd (resolveInput vm (op_AssetID (tx_Ops t ! k)) (op_Ins (tx_Ops t ! k) ! i)) = Fail e \<Longrightarrow>
         SemanticVerify vm t creds
           = (traceUpTo vm t creds k i
                @ fst (resolveInput vm (op_AssetID (tx_Ops t ! k)) (op_Ins (tx_Ops t ! k) ! i)), Fail e)"
    and "snd (resolveInput vm (op_AssetID (tx_Ops t ! k)) (op_Ins (tx_Ops t ! k) ! i)) = Panic \<Longrightarrow>
         SemanticVerify vm t creds
           = (traceUpTo vm t creds k i
                @ fst (resolveInput vm (op_AssetID (tx_Ops t ! k)) (op_Ins (tx_Ops t ! k) ! i)), Panic)"
proof -
  let ?op = "tx_Ops t ! k"
  let ?a = "op_AssetID ?op"
  let ?off = "offsetAt t k"
  let ?rest = "drop (Suc k) (tx_Ops t)"
  let ?tr0 = "fst (SemanticVerify vm (t\<lparr>tx_Ops := take k (tx_Ops t)\<rparr>) creds)"
  let ?tr1 = "fst (insLoop vm creds ?off ?a 0 (take i (op_Ins ?op)) ([], [], []))"
  let ?res = "resolveInput vm ?a (op_Ins ?op ! i)"
  have k: "k < length (tx_Ops t)"
    and ok: "snd (SemanticVerify vm (t\<lparr>tx_Ops := take k (tx_Ops t)\<rparr>) creds) = Val ()"
    and v: "isVal (snd (insLoop vm creds ?off ?a 0 (take i (op_Ins ?op)) ([], [], [])))"
    using R by (simp_all add: inputsResolved_def)
  have hc': "hasCredential creds (i + ?off)" using hc by (simp add: add.commute)
  note split = SemanticVerify_split [OF k ok]
  note at = insLoop_at [OF v lt hc']
  have p1: "prefix (?tr1 @ fst ?res) (fst (verifyOp vm creds ?off ?op))"
    using at(1) verifyOp_prefix [of vm creds ?off ?op] by (rule prefix_order.trans)
  have p2: "prefix (?tr1 @ fst ?res) (fst (opsLoop vm creds ?off (?op # ?rest)))"
    using p1 opsLoop_Cons_prefix [of vm creds ?off ?op ?rest] by (rule prefix_order.trans)
  show "prefix (traceUpTo vm t creds k i @ fst ?res) (fst (SemanticVerify vm t creds))"
    using p2 by (simp add: split traceUpTo_def)
  show "SemanticVerify vm t creds = (traceUpTo vm t creds k i @ fst ?res, Fail e)"
    if "snd ?res = Fail e"
    using opsLoop_Cons_Fail [OF verifyOp_Fail [OF at(2) [OF that]], of ?rest]
    by (simp add: split traceUpTo_def)
  show "SemanticVerify vm t creds = (traceUpTo vm t creds k i @ fst ?res, Panic)"
    if "snd ?res = Panic"
    using opsLoop_Cons_Panic [OF verifyOp_Panic [OF at(3) [OF that]], of ?rest]
    by (simp add: split traceUpTo_def)
qed

text \<open>The slice access of line 158 is always in range.\<close>

lemma index_in_range:
  fixes inputIndex :: "32 word"
  assumes "\<not> (of_nat n :: 32 word) \<le> inputIndex"
  shows "unat inputIndex < n"
proof -
  have "unat inputIndex < unat (of_nat n :: 32 word)"
    using assms by (simp add: word_less_nat_alt not_le)
  also have "\<dots> \<le> n" by (simp add: unat_of_nat)
  finally show ?thesis .
qed

lemma index_out_of_range:
  fixes inputIndex :: "32 word"
  assumes "n \<le> unat inputIndex"
  shows "(of_nat n :: 32 word) \<le> inputIndex"
proof -
  have "n < 2 ^ 32" using assms unsigned_less [of inputIndex, where 'a = nat] by simp
  then have "unat (of_nat n :: 32 word) = n" by (simp add: unat_of_nat)
  then show ?thesis using assms by (simp add: word_le_nat_alt)
qed

lemma int_index_nonneg: "\<not> sint (ucast (inputIndex :: 32 word) :: 64 word) < 0"
  by (simp add: signed_ucast_eq bit_uint_iff)

lemma resolveInput_hit:
  "state_UTXO vm (InputID vm (in_UTXOID inp)) = Some utxo \<Longrightarrow>
   resolveInput vm a inp =
     ([call_state_UTXO (InputID vm (in_UTXOID inp))],
      if utxo_AssetID utxo \<noteq> a then Fail errAssetIDMismatch else Val (utxo_Out utxo))"
  by (simp add: resolveInput_def)

lemma resolveInput_miss_calls:
  "state_UTXO vm (InputID vm (in_UTXOID inp)) = None \<Longrightarrow>
   prefix [call_state_UTXO (InputID vm (in_UTXOID inp)),
           call_parent_Verify (fst (InputSource vm (in_UTXOID inp)))]
     (fst (resolveInput vm a inp))"
  by (simp add: resolveInput_def Let_def case_prod_beta)

lemma resolveInput_missing:
  "state_UTXO vm (InputID vm (in_UTXOID inp)) = None \<Longrightarrow>
   parent_Verify vm (fst (InputSource vm (in_UTXOID inp))) \<noteq> None
     \<or> parent_Decided vm (fst (InputSource vm (in_UTXOID inp))) \<Longrightarrow>
   snd (resolveInput vm a inp) = Fail errMissingUTXO"
  by (auto simp: resolveInput_def Let_def case_prod_beta)

lemma resolveInput_invalid:
  "state_UTXO vm (InputID vm (in_UTXOID inp)) = None \<Longrightarrow>
   parent_Verify vm (fst (InputSource vm (in_UTXOID inp))) = None \<Longrightarrow>
   \<not> parent_Decided vm (fst (InputSource vm (in_UTXOID inp))) \<Longrightarrow>
   length (parent_UTXOs vm (fst (InputSource vm (in_UTXOID inp))))
     \<le> unat (snd (InputSource vm (in_UTXOID inp))) \<Longrightarrow>
   snd (resolveInput vm a inp) = Fail errInvalidUTXO"
  by (simp add: resolveInput_def Let_def case_prod_beta index_out_of_range)

lemma resolveInput_resolved:
  "resolvedOutput vm inp = Some utxo \<Longrightarrow>
   snd (resolveInput vm a inp) =
     (if utxo_AssetID utxo \<noteq> a then Fail errAssetIDMismatch else Val (utxo_Out utxo))"
  by (auto simp: resolveInput_def resolvedOutput_def Let_def case_prod_beta int_index_nonneg
      dest: index_in_range split: option.splits if_splits)

lemma resolveInput_not_Panic: "snd (resolveInput vm a inp) \<noteq> Panic"
  by (auto simp: resolveInput_def Let_def case_prod_beta dest: index_in_range split: option.splits)

lemma traceUpTo_extension:
  "extensionArgs (traceUpTo vm t creds k i)
     = extensionArgs (fst (SemanticVerify vm (t\<lparr>tx_Ops := take k (tx_Ops t)\<rparr>) creds))"
  by (simp add: traceUpTo_def insLoop_no_extension extensionArgs_append)

text \<open>
  Claim C2. Let a run of \<^verbatim>\<open>SemanticVerify\<close> get as far as input \<open>i\<close> of operation
  \<open>k\<close>, with a credential at the position of that input. The calls made for the input
  continue the run from there. If the store holds the output under the input identifier,
  the store lookup is the only call made for the input: no ancestor is consulted. If it
  does not, the lookup is followed by the verification of the ancestor transaction; when
  that verification fails, or the ancestor is decided, \<^verbatim>\<open>SemanticVerify\<close> returns the
  missing-output error; when the ancestor passes both and the output index is not less
  than the number of outputs of the ancestor, it returns the invalid-output error.
\<close>

theorem SemanticVerify_resolution:
  fixes vm :: "'v VM"
  assumes "inputsResolved vm t creds k i"
    and "i < length (op_Ins (tx_Ops t ! k))"
    and "hasCredential creds (offsetAt t k + i)"
  defines "op \<equiv> tx_Ops t ! k"
  defines "inp \<equiv> op_Ins op ! i"
  defines "utxoID \<equiv> InputID vm (in_UTXOID inp)"
  defines "inputTx \<equiv> fst (InputSource vm (in_UTXOID inp))"
  defines "inputIndex \<equiv> snd (InputSource vm (in_UTXOID inp))"
  defines "calls \<equiv> fst (resolveInput vm (op_AssetID op) inp)"
  shows "prefix (traceUpTo vm t creds k i @ calls) (fst (SemanticVerify vm t creds))
     \<and> (state_UTXO vm utxoID \<noteq> None \<longrightarrow> calls = [call_state_UTXO utxoID])
     \<and> (state_UTXO vm utxoID = None \<longrightarrow>
          prefix [call_state_UTXO utxoID, call_parent_Verify inputTx] calls)
     \<and> (state_UTXO vm utxoID = None
          \<and> (parent_Verify vm inputTx \<noteq> None \<or> parent_Decided vm inputTx)
          \<longrightarrow> snd (SemanticVerify vm t creds) = Fail errMissingUTXO)
     \<and> (state_UTXO vm utxoID = None
          \<and> parent_Verify vm inputTx = None \<and> \<not> parent_Decided vm inputTx
          \<and> length (parent_UTXOs vm inputTx) \<le> unat inputIndex
          \<longrightarrow> snd (SemanticVerify vm t creds) = Fail errInvalidUTXO)"
proof -
  note reach = reach_input [OF assms(1-3)]
  have 1: "prefix (traceUpTo vm t creds k i @ calls) (fst (SemanticVerify vm t creds))"
    using reach(1) by (simp add: calls_def inp_def op_def)
  have 2: "calls = [call_state_UTXO utxoID]" if "state_UTXO vm utxoID \<noteq> None"
    using that resolveInput_hit [of vm inp _ "op_AssetID op"]
    by (auto simp: calls_def utxoID_def)
  have 3: "prefix [call_state_UTXO utxoID, call_parent_Verify inputTx] calls"
    if "state_UTXO vm utxoID = None"
    using that resolveInput_miss_calls [of vm inp "op_AssetID op"]
    by (simp add: calls_def utxoID_def inputTx_def)
  have 4: "snd (SemanticVerify vm t creds) = Fail errMissingUTXO"
    if "state_UTXO vm utxoID = None"
      and "parent_Verify vm inputTx \<noteq> None \<or> parent_Decided vm inputTx"
  proof -
    have "snd (resolveInput vm (op_AssetID op) inp) = Fail errMissingUTXO"
      using that by (intro resolveInput_missing) (simp_all add: utxoID_def inputTx_def)
    then show ?thesis using reach(2) by (simp add: inp_def op_def)
  qed
  have 5: "snd (SemanticVerify vm t creds) = Fail errInvalidUTXO"
    if "state_UTXO vm utxoID = None" and "parent_Verify vm inputTx = None"
      and "\<not> parent_Decided vm inputTx" and "length (parent_UTXOs vm inputTx) \<le> unat inputIndex"
  proof -
    have "snd (resolveInput vm (op_AssetID op) inp) = Fail errInvalidUTXO"
      using that by (intro resolveInput_invalid) (simp_all add: utxoID_def inputTx_def inputIndex_def)
    then show ?thesis using reach(2) by (simp add: inp_def op_def)
  qed
  show ?thesis using 1 2 3 4 5 by blast
qed

lemma insLoop_Val:
  "insLoop vm creds off a i ins (us, xs, cs) = (tr, Val (us', xs', cs')) \<Longrightarrow>
     xs' = xs @ map in_In ins
     \<and> map mkCred cs' = map mkCred cs @ take (length ins) (drop (i + off) creds)
     \<and> length cs' = length cs + length ins
     \<and> length us' = length us + length ins"
proof (induction ins arbitrary: i us xs cs tr)
  case Nil
  then show ?case by simp
next
  case (Cons inp rest)
  from Cons.prems obtain cred tr1 out tr2 where
    lt: "i + off < length creds" and c: "creds ! (i + off) = Some cred"
    and r: "resolveInput vm a inp = (tr1, Val out)"
    and rec: "insLoop vm creds off a (Suc i) rest
               (us @ [out], xs @ [in_In inp], cs @ [cred_Cred cred]) = (tr2, Val (us', xs', cs'))"
    by (auto split: if_splits option.splits prod.splits res.splits)
  note ih = Cons.IH [OF rec]
  have "take (Suc (length rest)) (drop (i + off) creds)
      = creds ! (i + off) # take (length rest) (drop (Suc (i + off)) creds)"
    using lt by (simp add: Cons_nth_drop_Suc [symmetric])
  then show ?case using ih c by (simp add: mkCred_def)
qed

lemma alignedArgs_I:
  assumes "map mkCred cs = take (length (op_Ins op)) (drop off creds)"
    and "length cs = length (op_Ins op)"
  shows "alignedArgs creds off op (map in_In (op_Ins op), cs)"
proof -
  let ?n = "length (op_Ins op)"
  have len: "length (take ?n (drop off creds)) = ?n"
    using assms by (metis length_map)
  have "off + i < length creds \<and> creds ! (off + i) = Some \<lparr>cred_Cred = cs ! i\<rparr>" if "i < ?n" for i
  proof -
    have lt: "off + i < length creds" using len that by simp
    have "take ?n (drop off creds) ! i = creds ! (off + i)" using that lt by simp
    moreover have "map mkCred cs ! i = mkCred (cs ! i)" using that assms(2) by simp
    ultimately show ?thesis using lt assms(1) by (simp add: mkCred_def)
  qed
  then show ?thesis using assms(2) by (simp add: alignedArgs_def)
qed

lemma verifyOp_args:
  "(extensionArgs (fst (verifyOp vm creds off op)) = [] \<and> \<not> isVal (snd (verifyOp vm creds off op)))
   \<or> (\<exists>arg. extensionArgs (fst (verifyOp vm creds off op)) = [arg] \<and> alignedArgs creds off op arg)"
proof (cases "insLoop vm creds off (op_AssetID op) 0 (op_Ins op) ([], [], [])")
  case (Pair tr r)
  have none: "extensionArgs tr = []"
    using insLoop_no_extension [of vm creds off "op_AssetID op" 0 "op_Ins op" "([], [], [])"]
    by (simp add: Pair)
  show ?thesis
  proof (cases r)
    case (Val acc)
    obtain us xs cs where acc: "acc = (us, xs, cs)" by (cases acc) auto
    have al: "alignedArgs creds off op (xs, cs)"
      using insLoop_Val [of vm creds off "op_AssetID op" 0 "op_Ins op" "[]" "[]" "[]" tr us xs cs]
        alignedArgs_I [of cs op off creds]
      by (simp add: Pair Val acc)
    show ?thesis
      using al none
      by (simp add: verifyOp_def Pair Val acc Let_def extensionArgs_append
          split: sum.splits option.splits)
  next
    case (Fail e)
    then show ?thesis using none by (simp add: verifyOp_def Pair)
  next
    case Panic
    then show ?thesis using none by (simp add: verifyOp_def Pair)
  qed
qed

lemma inputCount_Cons: "inputCount (op # ops) = length (op_Ins op) + inputCount ops"
  by (simp add: inputCount_def)

lemma opsLoop_args:
  "(\<forall>k < length (extensionArgs (fst (opsLoop vm creds off ops))).
      k < length ops
      \<and> alignedArgs creds (off + inputCount (take k ops)) (ops ! k)
           (extensionArgs (fst (opsLoop vm creds off ops)) ! k))
   \<and> (isVal (snd (opsLoop vm creds off ops))
        \<longrightarrow> length (extensionArgs (fst (opsLoop vm creds off ops))) = length ops)"
proof (induction ops arbitrary: off)
  case Nil
  show ?case by simp
next
  case (Cons op ops)
  let ?v = "verifyOp vm creds off op"
  let ?rest = "opsLoop vm creds (off + length (op_Ins op)) ops"
  from verifyOp_args [of vm creds off op]
  consider (none) "extensionArgs (fst ?v) = []" "\<not> isVal (snd ?v)"
    | (one) arg where "extensionArgs (fst ?v) = [arg]" "alignedArgs creds off op arg"
    by blast
  then show ?case
  proof cases
    case none
    then have "opsLoop vm creds off (op # ops) = ?v"
      by (cases ?v; cases "snd ?v") auto
    then show ?thesis using none by simp
  next
    case one
    show ?thesis
    proof (cases "isVal (snd ?v)")
      case False
      then have "opsLoop vm creds off (op # ops) = ?v"
        by (cases ?v; cases "snd ?v") auto
      then show ?thesis using one False by (simp add: inputCount_def)
    next
      case True
      then have eq: "opsLoop vm creds off (op # ops) = (fst ?v @ fst ?rest, snd ?rest)"
        by (cases ?v; cases "snd ?v") (auto simp: case_prod_beta)
      have args: "extensionArgs (fst (opsLoop vm creds off (op # ops)))
          = arg # extensionArgs (fst ?rest)"
        using eq by (simp add: extensionArgs_append one(1) del: opsLoop.simps)
      note ih = Cons.IH [of "off + length (op_Ins op)"]
      have "k < length (op # ops)
          \<and> alignedArgs creds (off + inputCount (take k (op # ops))) ((op # ops) ! k)
               ((arg # extensionArgs (fst ?rest)) ! k)"
        if "k < length (arg # extensionArgs (fst ?rest))" for k
      proof (cases k)
        case 0
        then show ?thesis using one(2) by (simp add: inputCount_def)
      next
        case (Suc j)
        then have "j < length (extensionArgs (fst ?rest))" using that by simp
        with ih have "j < length ops
            \<and> alignedArgs creds (off + length (op_Ins op) + inputCount (take j ops)) (ops ! j)
                 (extensionArgs (fst ?rest) ! j)"
          by blast
        then show ?thesis by (simp add: Suc inputCount_Cons add.assoc)
      qed
      then show ?thesis using ih args eq by (simp del: opsLoop.simps)
    qed
  qed
qed

lemma SemanticVerify_args:
  "(\<forall>k < length (extensionArgs (fst (SemanticVerify vm t creds))).
      k < length (tx_Ops t)
      \<and> alignedArgs creds (offsetAt t k) (tx_Ops t ! k)
           (extensionArgs (fst (SemanticVerify vm t creds)) ! k))
   \<and> (snd (SemanticVerify vm t creds) = Val ()
        \<longrightarrow> length (extensionArgs (fst (SemanticVerify vm t creds))) = length (tx_Ops t))
   \<and> offsetAt t 0 = length (base_Ins (tx_BaseTx t))
   \<and> (\<forall>k < length (tx_Ops t). offsetAt t (Suc k) = offsetAt t k + length (op_Ins (tx_Ops t ! k)))"
proof -
  let ?off = "length (base_Ins (tx_BaseTx t))"
  have off: "offsetAt t (Suc k) = offsetAt t k + length (op_Ins (tx_Ops t ! k))"
    if "k < length (tx_Ops t)" for k
    using that by (simp add: offsetAt_def inputCount_def take_Suc_conv_app_nth)
  have args: "extensionArgs (fst (SemanticVerify vm t creds)) = [] \<and> \<not> isVal (snd (SemanticVerify vm t creds))
      \<or> extensionArgs (fst (SemanticVerify vm t creds))
            = extensionArgs (fst (opsLoop vm creds ?off (tx_Ops t)))
         \<and> snd (SemanticVerify vm t creds) = snd (opsLoop vm creds ?off (tx_Ops t))"
    by (simp add: SemanticVerify_def case_prod_beta split: option.splits)
  have val: "isVal (snd (SemanticVerify vm t creds))" if "snd (SemanticVerify vm t creds) = Val ()"
    using that by simp
  have 1: "k < length (tx_Ops t)
      \<and> alignedArgs creds (offsetAt t k) (tx_Ops t ! k)
           (extensionArgs (fst (SemanticVerify vm t creds)) ! k)"
    if "k < length (extensionArgs (fst (SemanticVerify vm t creds)))" for k
    using that args opsLoop_args [of vm creds ?off "tx_Ops t"]
    by (auto simp: offsetAt_def)
  have 2: "length (extensionArgs (fst (SemanticVerify vm t creds))) = length (tx_Ops t)"
    if "snd (SemanticVerify vm t creds) = Val ()"
    using val [OF that] args opsLoop_args [of vm creds ?off "tx_Ops t"]
    by auto
  show ?thesis
    using 1 2 off by (simp add: offsetAt_def inputCount_def)
qed

lemma fxObj_dispatchKey:
  "fxObj (map in_In (op_Ins op)) (map out_Out (op_Outs op)) = dispatchKey op"
  by (cases "op_Ins op"; cases "op_Outs op") (simp_all add: fxObj_def dispatchKey_def)

lemma earlier_extension_calls:
  assumes "k \<le> length (tx_Ops t)"
    and "snd (SemanticVerify vm (t\<lparr>tx_Ops := take k (tx_Ops t)\<rparr>) creds) = Val ()"
  shows "length (extensionArgs (traceUpTo vm t creds k i)) = k"
  using SemanticVerify_args [of vm "t\<lparr>tx_Ops := take k (tx_Ops t)\<rparr>" creds] assms
  by (simp add: traceUpTo_extension)

lemma reach_dispatch:
  assumes R: "inputsResolved vm t creds k (length (op_Ins (tx_Ops t ! k)))"
  shows "prefix (traceUpTo vm t creds k (length (op_Ins (tx_Ops t ! k)))
                   @ [call_getFx (dispatchKey (tx_Ops t ! k))])
           (fst (SemanticVerify vm t creds))"
    and "getFx vm (dispatchKey (tx_Ops t ! k)) = Inl err \<Longrightarrow>
         SemanticVerify vm t creds
           = (traceUpTo vm t creds k (length (op_Ins (tx_Ops t ! k)))
                @ [call_getFx (dispatchKey (tx_Ops t ! k))], Fail err)"
    and "getFx vm (dispatchKey (tx_Ops t ! k)) = Inr fxIndex \<Longrightarrow>
         0 \<le> fxIndex \<Longrightarrow> fxIndex < int (length (fxs vm)) \<Longrightarrow>
         \<not> verifyFxUsage vm fxIndex (op_AssetID (tx_Ops t ! k)) \<Longrightarrow>
         SemanticVerify vm t creds
           = (traceUpTo vm t creds k (length (op_Ins (tx_Ops t ! k)))
                @ [call_getFx (dispatchKey (tx_Ops t ! k)),
                   call_verifyFxUsage fxIndex (op_AssetID (tx_Ops t ! k))], Fail errIncompatibleFx)"
proof -
  let ?op = "tx_Ops t ! k"
  let ?a = "op_AssetID ?op"
  let ?off = "offsetAt t k"
  let ?rest = "drop (Suc k) (tx_Ops t)"
  let ?key = "dispatchKey ?op"
  have k: "k < length (tx_Ops t)"
    and ok: "snd (SemanticVerify vm (t\<lparr>tx_Ops := take k (tx_Ops t)\<rparr>) creds) = Val ()"
    and v: "isVal (snd (insLoop vm creds ?off ?a 0 (op_Ins ?op) ([], [], [])))"
    using R by (simp_all add: inputsResolved_def)
  obtain tr1 us xs cs where
    ins: "insLoop vm creds ?off ?a 0 (op_Ins ?op) ([], [], []) = (tr1, Val (us, xs, cs))"
    using v
    by (cases "insLoop vm creds ?off ?a 0 (op_Ins ?op) ([], [], [])";
        cases "snd (insLoop vm creds ?off ?a 0 (op_Ins ?op) ([], [], []))") auto
  have xs: "xs = map in_In (op_Ins ?op)"
    using insLoop_Val [OF ins] by simp
  have up: "traceUpTo vm t creds k (length (op_Ins ?op))
      = fst (SemanticVerify vm (t\<lparr>tx_Ops := take k (tx_Ops t)\<rparr>) creds) @ tr1"
    by (simp add: traceUpTo_def ins)
  note split = SemanticVerify_split [OF k ok]
  have p1: "prefix (tr1 @ [call_getFx ?key]) (fst (verifyOp vm creds ?off ?op))"
    by (simp add: verifyOp_def ins xs fxObj_dispatchKey Let_def split: sum.splits option.splits)
  have p2: "prefix (tr1 @ [call_getFx ?key]) (fst (opsLoop vm creds ?off (?op # ?rest)))"
    using p1 opsLoop_Cons_prefix [of vm creds ?off ?op ?rest] by (rule prefix_order.trans)
  show "prefix (traceUpTo vm t creds k (length (op_Ins ?op)) @ [call_getFx ?key])
          (fst (SemanticVerify vm t creds))"
    using p2 by (simp add: split up)
  show "SemanticVerify vm t creds
      = (traceUpTo vm t creds k (length (op_Ins ?op)) @ [call_getFx ?key], Fail err)"
    if "getFx vm ?key = Inl err"
  proof -
    have "verifyOp vm creds ?off ?op = (tr1 @ [call_getFx ?key], Fail err)"
      using that by (simp add: verifyOp_def ins xs fxObj_dispatchKey)
    from opsLoop_Cons_Fail [OF this, of ?rest] show ?thesis
      by (simp add: split up)
  qed
  show "SemanticVerify vm t creds
      = (traceUpTo vm t creds k (length (op_Ins ?op))
           @ [call_getFx ?key, call_verifyFxUsage fxIndex ?a], Fail errIncompatibleFx)"
    if "getFx vm ?key = Inr fxIndex" "0 \<le> fxIndex" "fxIndex < int (length (fxs vm))"
      "\<not> verifyFxUsage vm fxIndex ?a"
  proof -
    have "verifyOp vm creds ?off ?op
        = (tr1 @ [call_getFx ?key, call_verifyFxUsage fxIndex ?a], Fail errIncompatibleFx)"
      using that by (simp add: verifyOp_def ins xs fxObj_dispatchKey)
    from opsLoop_Cons_Fail [OF this, of ?rest] show ?thesis
      by (simp add: split up)
  qed
qed

lemma insLoop_no_panic:
  "(\<forall>j < length ins. hasCredential creds (i + j + off)) \<Longrightarrow>
   snd (insLoop vm creds off a i ins acc) \<noteq> Panic"
proof (induction ins arbitrary: i acc)
  case Nil
  show ?case by simp
next
  case (Cons inp rest)
  obtain us xs cs where acc: "acc = (us, xs, cs)" by (cases acc) auto
  have here: "hasCredential creds (i + off)" using Cons.prems by force
  have later: "\<forall>j < length rest. hasCredential creds (Suc i + j + off)"
    using Cons.prems by force
  show ?case
    using here Cons.IH [OF later] resolveInput_not_Panic [of vm a inp]
    by (auto simp: acc hasCredential_def case_prod_beta split: option.splits res.splits)
qed

lemma verifyOp_no_panic:
  assumes "\<forall>j < length (op_Ins op). hasCredential creds (off + j)"
    and "\<forall>obj idx. getFx vm obj = Inr idx \<longrightarrow> 0 \<le> idx \<and> idx < int (length (fxs vm))"
  shows "snd (verifyOp vm creds off op) \<noteq> Panic"
proof -
  obtain tr r where p: "insLoop vm creds off (op_AssetID op) 0 (op_Ins op) ([], [], []) = (tr, r)"
    by force
  have "snd (insLoop vm creds off (op_AssetID op) 0 (op_Ins op) ([], [], [])) \<noteq> Panic"
    using assms(1) by (intro insLoop_no_panic) (simp add: add.commute)
  then have r: "r \<noteq> Panic" by (simp add: p)
  show ?thesis
  proof (cases r)
    case (Val acc)
    obtain us xs cs where acc: "acc = (us, xs, cs)" by (cases acc) auto
    show ?thesis
    proof (cases "getFx vm (fxObj xs (map out_Out (op_Outs op)))")
      case (Inl err)
      then show ?thesis by (simp add: verifyOp_def p Val acc)
    next
      case (Inr idx)
      then have "0 \<le> idx \<and> idx < int (length (fxs vm))" using assms(2) by blast
      then show ?thesis
        by (simp add: verifyOp_def p Val acc Inr Let_def split: option.splits)
    qed
  next
    case (Fail e)
    then show ?thesis by (simp add: verifyOp_def p)
  next
    case Panic
    then show ?thesis using r by simp
  qed
qed

lemma opsLoop_no_panic:
  assumes "\<forall>obj idx. getFx vm obj = Inr idx \<longrightarrow> 0 \<le> idx \<and> idx < int (length (fxs vm))"
  shows "(\<forall>p. off \<le> p \<and> p < off + inputCount ops \<longrightarrow> hasCredential creds p) \<Longrightarrow>
         snd (opsLoop vm creds off ops) \<noteq> Panic"
proof (induction ops arbitrary: off)
  case Nil
  show ?case by simp
next
  case (Cons op ops)
  have here: "\<forall>j < length (op_Ins op). hasCredential creds (off + j)"
    using Cons.prems by (simp add: inputCount_Cons)
  have later: "\<forall>p. off + length (op_Ins op) \<le> p \<and> p < off + length (op_Ins op) + inputCount ops
      \<longrightarrow> hasCredential creds p"
    using Cons.prems by (simp add: inputCount_Cons)
  show ?case
    using verifyOp_no_panic [OF here assms] Cons.IH [OF later]
    by (auto simp: case_prod_beta split: res.splits)
qed

lemma insLoop_at_panic:
  assumes "isVal (snd (insLoop vm creds off a 0 (take i ins) acc))"
    and "i < length ins" and "\<not> hasCredential creds (i + off)"
  shows "snd (insLoop vm creds off a 0 ins acc) = Panic"
proof -
  obtain tr1 acc1 where pre: "insLoop vm creds off a 0 (take i ins) acc = (tr1, Val acc1)"
    using assms(1)
    by (cases "insLoop vm creds off a 0 (take i ins) acc";
        cases "snd (insLoop vm creds off a 0 (take i ins) acc)") auto
  obtain us xs cs where acc1: "acc1 = (us, xs, cs)" by (cases acc1) auto
  have ins: "ins = take i ins @ (ins ! i) # drop (Suc i) ins"
    using assms(2) by (simp add: id_take_nth_drop)
  have whole: "insLoop vm creds off a 0 ins acc =
      (case insLoop vm creds off a i ((ins ! i) # drop (Suc i) ins) acc1 of (tr', r) \<Rightarrow> (tr1 @ tr', r))"
    using insLoop_append [of vm creds off a 0 "take i ins" "(ins ! i) # drop (Suc i) ins" acc] assms(2)
    by (simp add: pre ins [symmetric] min_absorb2)
  have "snd (insLoop vm creds off a i ((ins ! i) # drop (Suc i) ins) acc1) = Panic"
    using assms(3) by (auto simp: acc1 hasCredential_def split: option.splits)
  then show ?thesis by (simp add: whole case_prod_beta)
qed

lemma reach_panic:
  assumes R: "inputsResolved vm t creds k i"
    and lt: "i < length (op_Ins (tx_Ops t ! k))"
    and hc: "\<not> hasCredential creds (offsetAt t k + i)"
  shows "snd (SemanticVerify vm t creds) = Panic"
proof -
  let ?op = "tx_Ops t ! k"
  let ?off = "offsetAt t k"
  have k: "k < length (tx_Ops t)"
    and ok: "snd (SemanticVerify vm (t\<lparr>tx_Ops := take k (tx_Ops t)\<rparr>) creds) = Val ()"
    and v: "isVal (snd (insLoop vm creds ?off (op_AssetID ?op) 0 (take i (op_Ins ?op)) ([], [], [])))"
    using R by (simp_all add: inputsResolved_def)
  have hc': "\<not> hasCredential creds (i + ?off)" using hc by (simp add: add.commute)
  have "snd (insLoop vm creds ?off (op_AssetID ?op) 0 (op_Ins ?op) ([], [], [])) = Panic"
    by (rule insLoop_at_panic [OF v lt hc'])
  then have "snd (verifyOp vm creds ?off ?op) = Panic"
    by (simp add: verifyOp_def case_prod_beta)
  then have "snd (opsLoop vm creds ?off (?op # drop (Suc k) (tx_Ops t))) = Panic"
    by (simp add: case_prod_beta)
  then show ?thesis by (simp add: SemanticVerify_split [OF k ok])
qed

text \<open>The run on \<open>tx_sem\<close>, call by call.\<close>

lemma SemanticVerify_example_run: "SemanticVerify vm_sem tx_sem creds3 =
   ([call_BaseTx_SemanticVerify, call_state_UTXO (NewID [10, 1]), call_getFx (Some 6),
     call_verifyFxUsage 0 (NewID [2]), call_VerifyOperation 0 [101] [6] [71] [],
     call_state_UTXO (NewID [11, 0]), call_parent_Verify (NewID [11]),
     call_parent_Status (NewID [11]), call_parent_UTXOs (NewID [11]), call_getFx (Some 7),
     call_verifyFxUsage 0 (NewID [3]), call_VerifyOperation 0 [200] [7] [72] [9]], Val ())"
  by (simp add: sem_defs sem_ex_defs)

theorem SemanticVerify_resolution_witness:
  "inputsResolved vm_sem tx_stale creds3 1 0
   \<and> hasCredential creds3 (offsetAt tx_stale 1 + 0)
   \<and> state_UTXO vm_sem (InputID vm_sem utxo_d) = None
   \<and> parent_Decided vm_sem (fst (InputSource vm_sem utxo_d))
   \<and> snd (SemanticVerify vm_sem tx_stale creds3) = Fail errMissingUTXO
   \<and> inputsResolved vm_sem tx_range creds3 1 0
   \<and> state_UTXO vm_sem (InputID vm_sem utxo_e) = None
   \<and> length (parent_UTXOs vm_sem (fst (InputSource vm_sem utxo_e))) = 1
   \<and> unat (snd (InputSource vm_sem utxo_e)) = 5
   \<and> snd (SemanticVerify vm_sem tx_range creds3) = Fail errInvalidUTXO
   \<and> inputsResolved vm_sem tx_sem creds3 0 0
   \<and> state_UTXO vm_sem (InputID vm_sem utxo_b) \<noteq> None
   \<and> fst (resolveInput vm_sem (NewID [2]) \<lparr>in_UTXOID = utxo_b, in_In = 6\<rparr>)
       = [call_state_UTXO (InputID vm_sem utxo_b)]"
  using SemanticVerify_resolution [of vm_sem tx_stale creds3 1 0]
    SemanticVerify_resolution [of vm_sem tx_range creds3 1 0]
    SemanticVerify_resolution [of vm_sem tx_sem creds3 0 0]
  by (simp add: sem_defs sem_ex_defs)

text \<open>
  Claim C3. When the run gets as far as an input and resolves it, from the store or from
  the outputs of an ancestor, to an output whose asset is not the asset of the operation,
  \<^verbatim>\<open>SemanticVerify\<close> returns the asset-mismatch error, and the extension invocations
  of the whole run are the \<open>k\<close> ones of the earlier operations: none is made for the
  operation of the input.
\<close>

theorem SemanticVerify_asset_mismatch:
  assumes "inputsResolved vm t creds k i"
    and "i < length (op_Ins (tx_Ops t ! k))"
    and "hasCredential creds (offsetAt t k + i)"
    and "resolvedOutput vm (op_Ins (tx_Ops t ! k) ! i) = Some utxo"
    and "utxo_AssetID utxo \<noteq> op_AssetID (tx_Ops t ! k)"
  shows "snd (SemanticVerify vm t creds) = Fail errAssetIDMismatch
     \<and> length (extensionArgs (fst (SemanticVerify vm t creds))) = k"
proof -
  let ?res = "resolveInput vm (op_AssetID (tx_Ops t ! k)) (op_Ins (tx_Ops t ! k) ! i)"
  have "snd ?res = Fail errAssetIDMismatch"
    using resolveInput_resolved [OF assms(4), of "op_AssetID (tx_Ops t ! k)"] assms(5) by simp
  from reach_input(2) [OF assms(1-3) this]
  have run: "SemanticVerify vm t creds = (traceUpTo vm t creds k i @ fst ?res, Fail errAssetIDMismatch)" .
  have "length (extensionArgs (traceUpTo vm t creds k i)) = k"
    using assms(1) by (intro earlier_extension_calls) (simp_all add: inputsResolved_def)
  then show ?thesis
    by (simp add: run extensionArgs_append resolveInput_no_extension)
qed

theorem SemanticVerify_asset_mismatch_witness:
  "inputsResolved vm_sem tx_mismatch creds3 1 0
   \<and> hasCredential creds3 (offsetAt tx_mismatch 1 + 0)
   \<and> resolvedOutput vm_sem (op_Ins (tx_Ops tx_mismatch ! 1) ! 0)
       = Some \<lparr>utxo_UTXOID = utxo_c, utxo_AssetID = NewID [3], utxo_Out = 200\<rparr>
   \<and> op_AssetID (tx_Ops tx_mismatch ! 1) = NewID [4]
   \<and> snd (SemanticVerify vm_sem tx_mismatch creds3) = Fail errAssetIDMismatch
   \<and> length (extensionArgs (fst (SemanticVerify vm_sem tx_mismatch creds3))) = 1"
  using SemanticVerify_asset_mismatch [of vm_sem tx_mismatch creds3 1 0
      "\<lparr>utxo_UTXOID = utxo_c, utxo_AssetID = NewID [3], utxo_Out = 200\<rparr>"]
  by (simp add: sem_defs sem_ex_defs resolvedOutput_def)

text \<open>
  Claim C4. The offset starts at the number of base inputs and grows, operation by
  operation, by the number of inputs of the operation. In every run, the \<open>k\<close>-th
  extension invocation is that of operation \<open>k\<close>, and it is handed, for every input
  \<open>i\<close> of the operation, the payload of that input together with the payload of the
  credential at position \<open>offset + i\<close>, which exists. A run that returns \<^verbatim>\<open>nil\<close>
  has made one invocation per operation.
\<close>

theorem SemanticVerify_credentials:
  "(\<forall>k < length (extensionArgs (fst (SemanticVerify vm t creds))).
      k < length (tx_Ops t)
      \<and> alignedArgs creds (offsetAt t k) (tx_Ops t ! k)
           (extensionArgs (fst (SemanticVerify vm t creds)) ! k))
   \<and> (snd (SemanticVerify vm t creds) = Val ()
        \<longrightarrow> length (extensionArgs (fst (SemanticVerify vm t creds))) = length (tx_Ops t))
   \<and> offsetAt t 0 = length (base_Ins (tx_BaseTx t))
   \<and> (\<forall>k < length (tx_Ops t). offsetAt t (Suc k) = offsetAt t k + length (op_Ins (tx_Ops t ! k)))"
  by (rule SemanticVerify_args)

theorem SemanticVerify_credentials_witness:
  "snd (SemanticVerify vm_sem tx_sem creds3) = Val ()
   \<and> extensionArgs (fst (SemanticVerify vm_sem tx_sem creds3)) = [([6], [71]), ([7], [72])]
   \<and> offsetAt tx_sem 0 = 1 \<and> offsetAt tx_sem 1 = 2
   \<and> alignedArgs creds3 1 (tx_Ops tx_sem ! 0) ([6], [71])
   \<and> alignedArgs creds3 2 (tx_Ops tx_sem ! 1) ([7], [72])
   \<and> creds3 ! (offsetAt tx_sem 1 + 0) = Some \<lparr>cred_Cred = 72\<rparr>"
  using SemanticVerify_credentials [of vm_sem tx_sem creds3]
  by (simp add: sem_defs sem_ex_defs alignedArgs_def)

text \<open>
  Claim C6. When the run has resolved all inputs of operation \<open>k\<close>, the next call is
  \<^verbatim>\<open>getFx\<close> on the dispatch key of the operation. If \<^verbatim>\<open>getFx\<close> returns an error,
  \<^verbatim>\<open>SemanticVerify\<close> returns that error. If it returns the index of a registered
  extension that may not be used for the asset of the operation,
  \<^verbatim>\<open>SemanticVerify\<close> returns the incompatible-extension error. In both cases the
  extension invocations of the run are the \<open>k\<close> ones of the earlier operations: the
  entry point is not invoked for operation \<open>k\<close>.
\<close>

theorem SemanticVerify_dispatch:
  assumes "inputsResolved vm t creds k (length (op_Ins (tx_Ops t ! k)))"
  shows "prefix (traceUpTo vm t creds k (length (op_Ins (tx_Ops t ! k)))
                   @ [call_getFx (dispatchKey (tx_Ops t ! k))])
           (fst (SemanticVerify vm t creds))
     \<and> (\<forall>err. getFx vm (dispatchKey (tx_Ops t ! k)) = Inl err
          \<longrightarrow> snd (SemanticVerify vm t creds) = Fail err
              \<and> length (extensionArgs (fst (SemanticVerify vm t creds))) = k)
     \<and> (\<forall>fxIndex. getFx vm (dispatchKey (tx_Ops t ! k)) = Inr fxIndex
            \<and> 0 \<le> fxIndex \<and> fxIndex < int (length (fxs vm))
            \<and> \<not> verifyFxUsage vm fxIndex (op_AssetID (tx_Ops t ! k))
          \<longrightarrow> snd (SemanticVerify vm t creds) = Fail errIncompatibleFx
              \<and> length (extensionArgs (fst (SemanticVerify vm t creds))) = k)"
proof -
  note reach = reach_dispatch [OF assms]
  have calls: "length (extensionArgs (traceUpTo vm t creds k (length (op_Ins (tx_Ops t ! k))))) = k"
    using assms by (intro earlier_extension_calls) (simp_all add: inputsResolved_def)
  show ?thesis
    using reach(1) reach(2) reach(3) calls
    by (auto simp: extensionArgs_append)
qed

theorem SemanticVerify_dispatch_witness:
  "inputsResolved vm_unknown tx_sem creds3 0 1
   \<and> dispatchKey (tx_Ops tx_sem ! 0) = Some 6
   \<and> getFx vm_unknown (Some 6) = Inl (errOther ''unknown fx'')
   \<and> snd (SemanticVerify vm_unknown tx_sem creds3) = Fail (errOther ''unknown fx'')
   \<and> extensionArgs (fst (SemanticVerify vm_unknown tx_sem creds3)) = []
   \<and> dispatchKey (tx_Ops tx_sem ! 1) = Some 7
   \<and> inputsResolved vm_incompatible tx_sem creds3 1 1
   \<and> getFx vm_incompatible (Some 7) = Inr 0
   \<and> (0::int) < int (length (fxs vm_incompatible))
   \<and> \<not> verifyFxUsage vm_incompatible 0 (op_AssetID (tx_Ops tx_sem ! 1))
   \<and> snd (SemanticVerify vm_incompatible tx_sem creds3) = Fail errIncompatibleFx
   \<and> length (extensionArgs (fst (SemanticVerify vm_incompatible tx_sem creds3))) = 1"
  using SemanticVerify_dispatch [of vm_unknown tx_sem creds3 0]
    SemanticVerify_dispatch [of vm_incompatible tx_sem creds3 1]
  by (simp add: sem_defs sem_ex_defs dispatchKey_def)

text \<open>
  Claim C7, as amended. \<^verbatim>\<open>SemanticVerify\<close>, on a non-nil transaction, ends by
  returning \<^verbatim>\<open>nil\<close> or an error whenever the credential list holds a credential at
  every position of an operation input and \<^verbatim>\<open>getFx\<close> only returns indices of registered
  extensions. When the run gets as far as an operation input whose position holds no
  credential, because the list is too short or the entry is nil, it panics.
\<close>

theorem SemanticVerify_panic:
  "(offsetAt t (length (tx_Ops t)) \<le> length creds
    \<and> (\<forall>p. length (base_Ins (tx_BaseTx t)) \<le> p \<and> p < offsetAt t (length (tx_Ops t))
          \<longrightarrow> creds ! p \<noteq> None)
    \<and> (\<forall>obj idx. getFx vm obj = Inr idx \<longrightarrow> 0 \<le> idx \<and> idx < int (length (fxs vm)))
    \<longrightarrow> snd (SemanticVerify vm t creds) \<noteq> Panic)
   \<and> (inputsResolved vm t creds k i \<and> i < length (op_Ins (tx_Ops t ! k))
       \<and> \<not> hasCredential creds (offsetAt t k + i)
    \<longrightarrow> snd (SemanticVerify vm t creds) = Panic)"
proof (intro conjI impI)
  assume a: "offsetAt t (length (tx_Ops t)) \<le> length creds
    \<and> (\<forall>p. length (base_Ins (tx_BaseTx t)) \<le> p \<and> p < offsetAt t (length (tx_Ops t))
          \<longrightarrow> creds ! p \<noteq> None)
    \<and> (\<forall>obj idx. getFx vm obj = Inr idx \<longrightarrow> 0 \<le> idx \<and> idx < int (length (fxs vm)))"
  let ?off = "length (base_Ins (tx_BaseTx t))"
  have "\<forall>p. ?off \<le> p \<and> p < ?off + inputCount (tx_Ops t) \<longrightarrow> hasCredential creds p"
    using a by (auto simp: offsetAt_def hasCredential_def)
  moreover have "\<forall>obj idx. getFx vm obj = Inr idx \<longrightarrow> 0 \<le> idx \<and> idx < int (length (fxs vm))"
    using a by blast
  ultimately have "snd (opsLoop vm creds ?off (tx_Ops t)) \<noteq> Panic"
    using opsLoop_no_panic by blast
  then show "snd (SemanticVerify vm t creds) \<noteq> Panic"
    by (simp add: SemanticVerify_def case_prod_beta split: option.splits)
next
  assume "inputsResolved vm t creds k i \<and> i < length (op_Ins (tx_Ops t ! k))
       \<and> \<not> hasCredential creds (offsetAt t k + i)"
  then show "snd (SemanticVerify vm t creds) = Panic"
    using reach_panic by blast
qed

theorem SemanticVerify_panic_witness:
  "offsetAt tx_sem (length (tx_Ops tx_sem)) = 3 \<and> length creds3 = 3
   \<and> creds3 ! 1 \<noteq> None \<and> creds3 ! 2 \<noteq> None
   \<and> getFx vm_sem (Some 6) = Inr 0 \<and> length (fxs vm_sem) = 1
   \<and> snd (SemanticVerify vm_sem tx_sem creds3) = Val ()
   \<and> inputsResolved vm_sem tx_sem (take 2 creds3) 1 0
   \<and> \<not> hasCredential (take 2 creds3) (offsetAt tx_sem 1 + 0)
   \<and> snd (SemanticVerify vm_sem tx_sem (take 2 creds3)) = Panic"
  using SemanticVerify_panic [of tx_sem creds3 vm_sem 1 0]
    SemanticVerify_panic [of tx_sem "take 2 creds3" vm_sem 1 0]
  by (simp add: sem_defs sem_ex_defs)

text \<open>
  The claim as stated fails on a short credential list: \<open>tx_sem\<close> has three inputs,
  and with two credentials the run panics at the input of the second operation.
\<close>

theorem SemanticVerify_panic_counterexample:
  "length (take 2 creds3) < length (base_Ins (tx_BaseTx tx_sem)) + inputCount (tx_Ops tx_sem)
   \<and> snd (SemanticVerify vm_sem tx_sem (take 2 creds3)) = Panic"
  by (simp add: sem_defs sem_ex_defs)

section \<open>The sticky error of a codec session\<close>

text \<open>The model passes the tests of the packer that are among the source files.\<close>

lemma TestPackerByte:
  "Bytes (PackByte 0x01 (encoder 1)) = [0x01] \<and> \<not> Errored (PackByte 0x01 (encoder 1))"
  by (simp add: pack_defs encoder_def Errored_def)

lemma TestPackerShort:
  "Bytes (PackShort 0x0102 (encoder 2)) = [0x01, 0x02] \<and> \<not> Errored (PackShort 0x0102 (encoder 2))"
  by (simp add: pack_defs encoder_def Errored_def bytes_of_def upt_rec)

lemma TestPackerInt:
  "Bytes (PackInt 0x01020304 (encoder 4)) = [0x01, 0x02, 0x03, 0x04]
   \<and> \<not> Errored (PackInt 0x01020304 (encoder 4))"
  by (simp add: pack_defs encoder_def Errored_def bytes_of_def upt_rec)

lemma TestPackerLong:
  "Bytes (PackLong 0x0102030405060708 (encoder 8)) = [0x01, 0x02, 0x03, 0x04, 0x05, 0x06, 0x07, 0x08]
   \<and> \<not> Errored (PackLong 0x0102030405060708 (encoder 8))"
  by (simp add: pack_defs encoder_def Errored_def bytes_of_def upt_rec)

lemma TestPackerString:
  "Bytes (PackStr ''Ava'' (encoder 5)) = [0x00, 0x03, 0x41, 0x76, 0x61]
   \<and> \<not> Errored (PackStr ''Ava'' (encoder 5))"
  by (simp add: pack_defs encoder_def Errored_def bytes_of_def upt_rec)

lemma TestPacker:
  "\<not> Errored (encoder 3)
   \<and> length (Bytes (PackShort 17 (encoder 3))) = 2
   \<and> Errored (PackShort 1 (PackShort 17 (encoder 3)))
   \<and> fst (UnpackShort (decoder (Bytes (PackShort 1 (PackShort 17 (encoder 3)))))) = 17"
  by (simp add: pack_defs encoder_def decoder_def Errored_def bytes_of_def word_of_def upt_rec)

lemma TestPackBool:
  "\<not> Errored (PackBool False (PackBool True (PackBool False (encoder 3))))
   \<and> fst (UnpackBool (decoder (Bytes (PackBool False (PackBool True (PackBool False (encoder 3))))))) = False
   \<and> fst (UnpackBool (snd (UnpackBool
        (decoder (Bytes (PackBool False (PackBool True (PackBool False (encoder 3))))))))) = True"
  by (simp add: pack_defs encoder_def decoder_def Errored_def bytes_of_def word_of_def)

lemma length_bytes_of [simp]: "length (bytes_of n w) = n"
  by (simp add: bytes_of_def)

lemma short_round_trip: "word_of (bytes_of 2 v) = (v :: 16 word)"
proof -
  have "bytes_of 2 v = [ucast (drop_bit 8 v), ucast v]"
    by (simp add: bytes_of_def upt_rec)
  moreover have "push_bit 8 (ucast (ucast (drop_bit 8 v) :: byte)) OR ucast (ucast v :: byte) = v"
    by (rule bit_word_eqI) (auto simp: bit_simps)
  ultimately show ?thesis by (simp add: word_of_def)
qed

lemma session_call_errored: "Errored p \<Longrightarrow> session_call c p = p"
  by (cases c) (simp_all add: pack_defs)

lemma session_errored: "Errored p \<Longrightarrow> session cs p = p"
  unfolding session_def by (induction cs) (simp_all add: session_call_errored)

lemma failing_call_keeps_buffer:
  "\<not> Errored p \<Longrightarrow> Errored (session_call c p) \<Longrightarrow>
   Bytes (session_call c p) = Bytes p"
  by (cases c) (auto simp: pack_defs Errored_def split: if_splits prod.splits option.splits)

text \<open>
  Claim C8. On an errored session every pack or unpack call, and every list of such
  calls, leaves the session as it is: the buffer, the bytes written and the errors do
  not change, and the session still reports errored. The call that fails leaves the
  buffer as it was. In particular, for a session of capacity 3 that holds the two bytes
  of a short, packing another short fails with the overflow error, and a fresh session
  over the first two bytes unpacks the short written first.
\<close>

theorem Packer_sticky_error:
  "(Errored p \<longrightarrow> session_call c p = p \<and> session cs p = p \<and> Errored (session cs p))
   \<and> (\<not> Errored p \<and> Errored (session_call c p)
        \<longrightarrow> Bytes (session (c # cs) p) = Bytes p \<and> Errored (session (c # cs) p))
   \<and> (length (Bytes (PackShort v (encoder 3))) = 2
        \<and> Errs (PackShort w (PackShort v (encoder 3))) = [errOverflow]
        \<and> fst (UnpackShort (decoder (take 2 (Bytes (PackShort w (PackShort v (encoder 3))))))) = v)"
proof -
  have 1: "session_call c p = p \<and> session cs p = p \<and> Errored (session cs p)" if "Errored p"
    using that by (simp add: session_call_errored session_errored)
  have 2: "Bytes (session (c # cs) p) = Bytes p \<and> Errored (session (c # cs) p)"
    if "\<not> Errored p" "Errored (session_call c p)"
  proof -
    have "session (c # cs) p = session cs (session_call c p)"
      by (simp add: session_def)
    then have "session (c # cs) p = session_call c p"
      using that(2) by (simp add: session_errored)
    then show ?thesis using that by (simp add: failing_call_keeps_buffer)
  qed
  have first: "PackShort v (encoder 3) = \<lparr>MaxSize = 3, Bytes = bytes_of 2 v, Offset = 0, Errs = []\<rparr>"
    by (simp add: PackShort_def PackFixedBytes_def encoder_def Errored_def)
  have "PackShort w \<lparr>MaxSize = 3, Bytes = bytes_of 2 v, Offset = 0, Errs = []\<rparr>
      = \<lparr>MaxSize = 3, Bytes = bytes_of 2 v, Offset = 0, Errs = [errOverflow]\<rparr>"
    by (simp add: PackShort_def PackFixedBytes_def Errored_def)
  then have second: "PackShort w (PackShort v (encoder 3))
      = \<lparr>MaxSize = 3, Bytes = bytes_of 2 v, Offset = 0, Errs = [errOverflow]\<rparr>"
    by (simp only: first)
  have 3: "fst (UnpackShort (decoder (take 2 (Bytes (PackShort w (PackShort v (encoder 3))))))) = v"
    by (simp add: second UnpackShort_def unpackWord_def UnpackFixedBytes_def decoder_def
        Errored_def short_round_trip)
  have 4: "length (Bytes (PackShort v (encoder 3))) = 2"
    by (simp add: first)
  have 5: "Errs (PackShort w (PackShort v (encoder 3))) = [errOverflow]"
    by (simp add: second)
  show ?thesis using 1 2 3 4 5 by blast
qed

theorem Packer_sticky_error_witness:
  "Errored (PackShort 1 (PackShort 17 (encoder 3)))
   \<and> session [PackByte_call 9, UnpackShort_call, PackStr_call ''Ava'']
        (PackShort 1 (PackShort 17 (encoder 3))) = PackShort 1 (PackShort 17 (encoder 3))
   \<and> \<not> Errored (PackShort 17 (encoder 3))
   \<and> Errored (session_call (PackShort_call 1) (PackShort 17 (encoder 3)))
   \<and> Bytes (session [PackShort_call 1, PackByte_call 9] (PackShort 17 (encoder 3))) = [0, 17]
   \<and> fst (UnpackShort (decoder (take 2 (Bytes (PackShort 1 (PackShort 17 (encoder 3))))))) = 17"
  using Packer_sticky_error [of "PackShort 1 (PackShort 17 (encoder 3))" "PackByte_call 9"
      "[PackByte_call 9, UnpackShort_call, PackStr_call ''Ava'']" 17 1]
    Packer_sticky_error [of "PackShort 17 (encoder 3)" "PackShort_call 1" "[PackByte_call 9]" 17 1]
  by (simp add: pack_defs encoder_def Errored_def bytes_of_def upt_rec)

section \<open>Identifier strings and their inverse\<close>

lemma length_sha_digest: "length (sha_digest s) = 32"
  by (cases s) (auto simp: be32_def)

lemma length_sha256: "length (sha256 msg) = 32"
  by (simp add: sha256_def length_sha_digest)

declare digits.simps [simp del]

lemma digits_0 [simp]: "digits b 0 = []"
  by (simp add: digits.simps)

lemma digits_rec: "2 \<le> b \<Longrightarrow> 0 < n \<Longrightarrow> digits b n = digits b (n div b) @ [n mod b]"
  by (subst digits.simps) simp

lemma digits_Nil_iff: "2 \<le> b \<Longrightarrow> digits b n = [] \<longleftrightarrow> n = 0"
  by (cases "n = 0") (simp_all add: digits_rec)

lemma value_of_Nil [simp]: "value_of b [] = 0"
  by (simp add: value_of_def)

lemma value_of_snoc [simp]: "value_of b (ds @ [d]) = b * value_of b ds + d"
  by (simp add: value_of_def)

lemma value_of_digits: "2 \<le> b \<Longrightarrow> value_of b (digits b n) = n"
proof (induction n rule: less_induct)
  case (less n)
  show ?case
  proof (cases "n = 0")
    case True
    then show ?thesis by simp
  next
    case False
    then have "n div b < n" using less.prems by simp
    then show ?thesis using False less by (simp add: digits_rec)
  qed
qed

lemma digits_less: "2 \<le> b \<Longrightarrow> d \<in> set (digits b n) \<Longrightarrow> d < b"
proof (induction n rule: less_induct)
  case (less n)
  show ?case
  proof (cases "n = 0")
    case True
    then show ?thesis using less.prems by simp
  next
    case False
    then have lt: "n div b < n" using less.prems by simp
    have "d \<in> set (digits b (n div b)) \<or> d = n mod b"
      using False less.prems by (auto simp: digits_rec)
    then show ?thesis using less.IH [OF lt less.prems(1)] less.prems(1) by auto
  qed
qed

lemma digits_hd: "2 \<le> b \<Longrightarrow> digits b n \<noteq> [] \<Longrightarrow> hd (digits b n) \<noteq> 0"
proof (induction n rule: less_induct)
  case (less n)
  have n: "0 < n" using less.prems by (cases "n = 0") simp_all
  then have lt: "n div b < n" using less.prems by simp
  show ?case
  proof (cases "n div b = 0")
    case True
    then have "n < b" using less.prems(1) n
      by (simp add: div_eq_0_iff)
    then show ?thesis using n less.prems(1) True by (simp add: digits_rec)
  next
    case False
    then have "digits b (n div b) \<noteq> []" using less.prems(1) by (simp add: digits_Nil_iff)
    then show ?thesis using less.IH [OF lt less.prems(1)] n less.prems(1)
      by (simp add: digits_rec)
  qed
qed

lemma value_of_single [simp]: "value_of b [d] = d"
  by (simp add: value_of_def)

lemma value_of_pos: "0 < b \<Longrightarrow> ds \<noteq> [] \<Longrightarrow> hd ds \<noteq> 0 \<Longrightarrow> 0 < value_of b ds"
proof (induction ds rule: rev_induct)
  case Nil
  then show ?case by simp
next
  case (snoc d ds)
  show ?case
  proof (cases "ds = []")
    case True
    then show ?thesis using snoc.prems by simp
  next
    case False
    then have "0 < value_of b ds" using snoc by simp
    then show ?thesis using snoc.prems(1) by simp
  qed
qed

lemma digits_value_of:
  "2 \<le> b \<Longrightarrow> \<forall>d \<in> set ds. d < b \<Longrightarrow> ds = [] \<or> hd ds \<noteq> 0 \<Longrightarrow> digits b (value_of b ds) = ds"
proof (induction ds rule: rev_induct)
  case Nil
  then show ?case by simp
next
  case (snoc d ds)
  have d: "d < b" using snoc.prems(2) by simp
  have nz: "0 < value_of b (ds @ [d])"
    using snoc.prems by (intro value_of_pos) auto
  have ih: "digits b (value_of b ds) = ds"
    using snoc by (cases ds) auto
  have "digits b (value_of b (ds @ [d])) = digits b ((b * value_of b ds + d) div b) @ [(b * value_of b ds + d) mod b]"
    using nz snoc.prems(1) by (simp add: digits_rec)
  then show ?case using d ih by simp
qed

lemma value_of_zeros: "value_of b (replicate z 0 @ ds) = value_of b ds"
  by (induction z) (simp_all add: value_of_def)

lemma takeWhile_replicate: "takeWhile (\<lambda>x. x = z) xs = replicate (leading z xs) z"
  by (induction xs) (simp_all add: leading_def)

lemma split_leading: "xs = replicate (leading z xs) z @ dropWhile (\<lambda>x. x = z) xs"
  using takeWhile_dropWhile_id [of "\<lambda>x. x = z" xs] by (simp add: takeWhile_replicate)

lemma leading_replicate: "ys = [] \<or> hd ys \<noteq> z \<Longrightarrow> leading z (replicate k z @ ys) = k"
  by (induction k) (auto simp: leading_def takeWhile_eq_Nil_iff)

lemma dropWhile_hd: "dropWhile (\<lambda>x. x = z) xs = [] \<or> hd (dropWhile (\<lambda>x. x = z) xs) \<noteq> z"
  using hd_dropWhile [of "\<lambda>x. x = z" xs] by auto

lemma position_nth: "distinct xs \<Longrightarrow> d < length xs \<Longrightarrow> position (xs ! d) xs = Some d"
proof (induction xs arbitrary: d)
  case Nil
  then show ?case by simp
next
  case (Cons y ys)
  then show ?case by (cases d) auto
qed

lemma position_Some: "position x xs = Some d \<Longrightarrow> d < length xs \<and> xs ! d = x"
proof (induction xs arbitrary: d)
  case Nil
  then show ?case by simp
next
  case (Cons y ys)
  then show ?case by (cases d) (auto split: if_splits)
qed

lemma those_map_Some: "those (map f xs) = Some ys \<longleftrightarrow> map f xs = map Some ys"
proof (induction xs arbitrary: ys)
  case Nil
  then show ?case by auto
next
  case (Cons x xs)
  then show ?case by (cases ys) (auto split: option.splits)
qed

lemma those_None: "f x = None \<Longrightarrow> x \<in> set xs \<Longrightarrow> those (map f xs) = None"
  by (induction xs) (auto split: option.splits)

lemma length_alphabet: "length b58_alphabet = 58"
  by (simp add: b58_alphabet_def)

lemma distinct_alphabet: "distinct b58_alphabet"
  by code_simp

lemma alphabet_0: "b58_alphabet ! 0 = CHR ''1''"
  by (simp add: b58_alphabet_def)

lemma unat_of_nat_byte: "d < 256 \<Longrightarrow> unat (of_nat d :: byte) = d"
  by (simp add: unat_of_nat)

lemma position_alphabet: "d < 58 \<Longrightarrow> position (b58_alphabet ! d) b58_alphabet = Some d"
  by (simp add: position_nth distinct_alphabet length_alphabet)

lemma b58_decode_encode: "b58_decode (b58_encode bs) = Some bs"
proof -
  let ?z = "leading 0 bs"
  let ?rest = "dropWhile (\<lambda>x. x = 0) bs"
  let ?n = "value_of 256 (map unat bs)"
  let ?ds = "digits 58 ?n"
  have bs: "bs = replicate ?z 0 @ ?rest" by (rule split_leading)
  have lt: "\<forall>d \<in> set ?ds. d < 58" using digits_less [of 58] by simp
  have chars: "map (\<lambda>c. position c b58_alphabet) (b58_encode bs) = map Some (replicate ?z 0 @ ?ds)"
    using lt position_alphabet [of 0]
    by (simp add: b58_encode_def alphabet_0 position_alphabet map_replicate_const comp_def)
  have "?ds = [] \<or> hd ?ds \<noteq> 0"
    by (cases "?ds = []") (simp_all add: digits_hd)
  then have lead: "leading 0 (replicate ?z 0 @ ?ds) = ?z"
    by (rule leading_replicate)
  have val: "value_of 58 (replicate ?z 0 @ ?ds) = ?n"
    by (simp add: value_of_zeros value_of_digits)
  have "map unat bs = replicate ?z 0 @ map unat ?rest"
    by (subst bs) (simp add: map_replicate_const)
  then have n: "?n = value_of 256 (map unat ?rest)"
    by (simp add: value_of_zeros)
  have "unat w < 256" for w :: byte
    using unsigned_less [of w] by simp
  then have small: "\<forall>d \<in> set (map unat ?rest). d < 256"
    by auto
  have hd: "map unat ?rest = [] \<or> hd (map unat ?rest) \<noteq> 0"
  proof (cases "?rest = []")
    case True
    then show ?thesis by simp
  next
    case False
    then have "hd ?rest \<noteq> 0" using dropWhile_hd [of 0 bs] by blast
    then show ?thesis using False by (simp add: hd_map unsigned_eq_0_iff)
  qed
  have "digits 256 ?n = map unat ?rest"
    unfolding n using small hd by (intro digits_value_of) auto
  then have restored: "map of_nat (digits 256 ?n) = ?rest"
    by (simp add: comp_def)
  have th: "those (map (\<lambda>c. position c b58_alphabet) (b58_encode bs)) = Some (replicate ?z 0 @ ?ds)"
    by (subst those_map_Some) (rule chars)
  have "b58_decode (b58_encode bs) = Some (replicate ?z 0 @ ?rest)"
    by (simp only: b58_decode_def th option.case lead val restored)
  then show ?thesis by (simp only: bs [symmetric])
qed

lemma b58_encode_decode:
  assumes "b58_decode s = Some b"
  shows "b58_encode b = s"
proof -
  obtain ds where those: "those (map (\<lambda>c. position c b58_alphabet) s) = Some ds"
    and b: "b = replicate (leading 0 ds) 0 @ map of_nat (digits 256 (value_of 58 ds))"
    using assms by (auto simp: b58_decode_def split: option.splits)
  let ?z = "leading 0 ds"
  let ?m = "value_of 58 ds"
  let ?rest = "dropWhile (\<lambda>x. x = 0) ds"
  let ?bytes = "map of_nat (digits 256 ?m) :: byte list"
  have map: "map (\<lambda>c. position c b58_alphabet) s = map Some ds"
    using those by (simp add: those_map_Some)
  then have len: "length ds = length s" by (metis length_map)
  have pos: "position (s ! i) b58_alphabet = Some (ds ! i)" if "i < length s" for i
    using that map len by (metis nth_map)
  have s: "s = map (\<lambda>d. b58_alphabet ! d) ds"
    using pos position_Some len by (intro nth_equalityI) fastforce+
  have small: "\<forall>d \<in> set ds. d < 58"
  proof
    fix d assume "d \<in> set ds"
    then obtain i where "i < length ds" "ds ! i = d" by (auto simp: in_set_conv_nth)
    then show "d < 58" using pos [of i] position_Some [of "s ! i" b58_alphabet d] len
      by (simp add: length_alphabet)
  qed
  have ds: "ds = replicate ?z 0 @ ?rest" by (rule split_leading)
  have d256: "\<forall>d \<in> set (digits 256 ?m). d < 256" using digits_less [of 256] by simp
  have hd_bytes: "?bytes = [] \<or> hd ?bytes \<noteq> 0"
  proof (cases "digits 256 ?m = []")
    case True
    then show ?thesis by simp
  next
    case False
    then have "hd (digits 256 ?m) \<noteq> 0" "hd (digits 256 ?m) < 256"
      using digits_hd [of 256 ?m] d256 by simp_all
    then have "unat (of_nat (hd (digits 256 ?m)) :: byte) \<noteq> 0"
      by (simp add: unat_of_nat_byte)
    then show ?thesis using False by (auto simp: hd_map)
  qed
  have lead: "leading 0 b = ?z"
    unfolding b using hd_bytes by (rule leading_replicate)
  have "map unat ?bytes = digits 256 ?m"
    using d256 by (simp add: comp_def unat_of_nat_byte map_idI)
  then have "map unat b = replicate ?z 0 @ digits 256 ?m"
    by (simp add: b map_replicate_const)
  then have val: "value_of 256 (map unat b) = ?m"
    by (simp add: value_of_zeros value_of_digits)
  have "?m = value_of 58 ?rest"
    by (subst ds) (simp add: value_of_zeros)
  moreover have "digits 58 (value_of 58 ?rest) = ?rest"
    using small dropWhile_hd [of 0 ds]
    by (intro digits_value_of) (auto dest: set_dropWhileD)
  ultimately have dig: "digits 58 ?m = ?rest" by simp
  have "b58_encode b = map (\<lambda>d. b58_alphabet ! d) (replicate ?z 0 @ ?rest)"
    by (simp add: b58_encode_def lead val dig alphabet_0 map_replicate_const)
  then show ?thesis using s ds by simp
qed

lemma length_checksum: "length (checksum bs) = 4"
  by (simp add: checksum_def length_sha256)

lemma b58_decode_iff: "b58_decode s = Some b \<longleftrightarrow> b58_encode b = s"
  using b58_decode_encode b58_encode_decode by blast

lemma FromString_iff:
  "FromString s = Inr i \<longleftrightarrow> length (Key i) = 32 \<and> s = ID_String i"
proof
  assume a: "FromString s = Inr i"
  then obtain b where b: "b58_decode s = Some b" and len: "length b = 36"
    and ck: "drop 32 b = checksum (take 32 b)" and i: "i = NewID (take 32 b)"
    by (auto simp: FromString_def split: option.splits if_splits)
  have "Key i @ checksum (Key i) = b"
    using ck i by (metis ID.sel append_take_drop_id)
  then have "ID_String i = s"
    using b58_encode_decode [OF b] by (simp add: ID_String_def)
  then show "length (Key i) = 32 \<and> s = ID_String i"
    using i len by simp
next
  assume "length (Key i) = 32 \<and> s = ID_String i"
  then show "FromString s = Inr i"
    by (cases i) (simp add: FromString_def ID_String_def b58_decode_encode length_checksum)
qed

lemma FromString_invalid_character:
  assumes "c \<in> set s" and "c \<notin> set b58_alphabet"
  shows "FromString s = Inl errInvalidCharacter"
proof -
  have "position c b58_alphabet = None"
  proof (cases "position c b58_alphabet")
    case None
    then show ?thesis .
  next
    case (Some d)
    then show ?thesis using position_Some [OF Some] assms(2) by (metis nth_mem)
  qed
  then have "those (map (\<lambda>c. position c b58_alphabet) s) = None"
    using assms(1) those_None [of "\<lambda>c. position c b58_alphabet" c s] by simp
  then show ?thesis by (simp add: FromString_def b58_decode_def)
qed

text \<open>
  The model against the tests among the source files: the checksum of the key of
  \<^verbatim>\<open>TestID\<close>, and the string that \<^verbatim>\<open>TestID\<close> expects for it.
\<close>

lemma checksum_TestID: "checksum key_TestID = [0x25, 0x33, 0x11, 0x45]"
  by code_simp

lemma value_TestID:
  "value_of 256 (map unat (key_TestID @ [0x25, 0x33, 0x11, 0x45])) = value_of 58 digits_TestID"
  by (simp add: value_of_def key_TestID_def digits_TestID_def)

lemma encode_TestID:
  "b58_encode (key_TestID @ [0x25, 0x33, 0x11, 0x45])
     = ''Ba3mm8Ra8JYYebeZ9p7zw1ayorDbeD1euwxhgzSLsncKqGoNt''"
proof -
  have "digits 58 (value_of 256 (map unat (key_TestID @ [0x25, 0x33, 0x11, 0x45]))) = digits_TestID"
    unfolding value_TestID by (rule digits_value_of) (simp_all add: digits_TestID_def)
  then show ?thesis
    unfolding b58_encode_def
    by (simp add: leading_def key_TestID_def digits_TestID_def b58_alphabet_def)
qed

lemma ID_String_TestID:
  "ID_String (NewID key_TestID) = ''Ba3mm8Ra8JYYebeZ9p7zw1ayorDbeD1euwxhgzSLsncKqGoNt''"
  by (simp add: ID_String_def checksum_TestID encode_TestID)

text \<open>The same string with its last character changed has the wrong checksum.\<close>

lemma value_flipped:
  "value_of 256 (map unat (key_TestID @ [0x25, 0x33, 0x11, 0x46])) = value_of 58 digits_flipped"
  by (simp add: value_of_def key_TestID_def digits_flipped_def)

lemma encode_flipped:
  "b58_encode (key_TestID @ [0x25, 0x33, 0x11, 0x46])
     = ''Ba3mm8Ra8JYYebeZ9p7zw1ayorDbeD1euwxhgzSLsncKqGoNu''"
proof -
  have "digits 58 (value_of 256 (map unat (key_TestID @ [0x25, 0x33, 0x11, 0x46]))) = digits_flipped"
    unfolding value_flipped by (rule digits_value_of) (simp_all add: digits_flipped_def)
  then show ?thesis
    unfolding b58_encode_def
    by (simp add: leading_def key_TestID_def digits_flipped_def b58_alphabet_def)
qed

lemma FromString_flipped:
  "FromString ''Ba3mm8Ra8JYYebeZ9p7zw1ayorDbeD1euwxhgzSLsncKqGoNu'' = Inl errBadChecksum"
proof -
  have "b58_decode ''Ba3mm8Ra8JYYebeZ9p7zw1ayorDbeD1euwxhgzSLsncKqGoNu'' = Some (key_TestID @ [0x25, 0x33, 0x11, 0x46])"
    by (simp only: b58_decode_iff encode_flipped)
  moreover have "length key_TestID = 32" by (simp add: key_TestID_def)
  ultimately show ?thesis
    by (simp add: FromString_def checksum_TestID)
qed

text \<open>
  Claim C9. For every 32-byte value, the identifier made from it, rendered by
  \<^verbatim>\<open>String\<close> and parsed by \<^verbatim>\<open>FromString\<close>, comes back with the same key. Every other
  string is refused with a decode error: \<^verbatim>\<open>FromString\<close> accepts a string only if it is
  the rendering of the identifier it returns; a string with a character outside the
  alphabet gives the invalid-character error, one that decodes to other than 36 bytes the
  wrong-length error, and one whose last four bytes are not the checksum of the first 32
  the bad-checksum error.
\<close>

theorem FromString_inverse:
  "(length bs = 32 \<longrightarrow>
      FromString (ID_String (NewID bs)) = Inr (NewID bs) \<and> Key (NewID bs) = bs)
   \<and> (FromString s = Inr i \<longrightarrow> length (Key i) = 32 \<and> s = ID_String i)
   \<and> (c \<in> set s \<and> c \<notin> set b58_alphabet \<longrightarrow> FromString s = Inl errInvalidCharacter)
   \<and> (b58_decode s = Some b \<and> length b \<noteq> 36 \<longrightarrow> FromString s = Inl errWrongLength)
   \<and> (b58_decode s = Some b \<and> length b = 36 \<and> drop 32 b \<noteq> checksum (take 32 b)
        \<longrightarrow> FromString s = Inl errBadChecksum)"
proof -
  have 1: "FromString (ID_String (NewID bs)) = Inr (NewID bs)" if "length bs = 32"
    using that FromString_iff [of "ID_String (NewID bs)" "NewID bs"] by simp
  have 2: "length (Key i) = 32 \<and> s = ID_String i" if "FromString s = Inr i"
    using that by (simp add: FromString_iff)
  have 3: "FromString s = Inl errInvalidCharacter" if "c \<in> set s \<and> c \<notin> set b58_alphabet"
    using that FromString_invalid_character by blast
  have 4: "FromString s = Inl errWrongLength" if "b58_decode s = Some b \<and> length b \<noteq> 36"
    using that by (simp add: FromString_def)
  have 5: "FromString s = Inl errBadChecksum"
    if "b58_decode s = Some b \<and> length b = 36 \<and> drop 32 b \<noteq> checksum (take 32 b)"
    using that by (simp add: FromString_def)
  show ?thesis using 1 2 3 4 5 by simp
qed

theorem FromString_inverse_witness:
  "length key_TestFromString = 32
   \<and> FromString (ID_String (NewID key_TestFromString)) = Inr (NewID key_TestFromString)
   \<and> Key (NewID key_TestFromString) = key_TestFromString
   \<and> FromString ''Ba3mm8Ra8JYYebeZ9p7zw1ayorDbeD1euwxhgzSLsncKqGoNt'' = Inr (NewID key_TestID)
   \<and> ''Ba3mm8Ra8JYYebeZ9p7zw1ayorDbeD1euwxhgzSLsncKqGoNt'' = ID_String (NewID key_TestID)
   \<and> CHR ''0'' \<in> set ''Ba0'' \<and> CHR ''0'' \<notin> set b58_alphabet
   \<and> FromString ''Ba0'' = Inl errInvalidCharacter
   \<and> b58_decode ''2g'' = Some [0x61] \<and> FromString ''2g'' = Inl errWrongLength
   \<and> b58_decode ''Ba3mm8Ra8JYYebeZ9p7zw1ayorDbeD1euwxhgzSLsncKqGoNu'' = Some (key_TestID @ [0x25, 0x33, 0x11, 0x46])
   \<and> drop 32 (key_TestID @ [0x25, 0x33, 0x11, 0x46]) \<noteq> checksum (take 32 (key_TestID @ [0x25, 0x33, 0x11, 0x46]))
   \<and> FromString ''Ba3mm8Ra8JYYebeZ9p7zw1ayorDbeD1euwxhgzSLsncKqGoNu'' = Inl errBadChecksum"
proof -
  have len: "length key_TestFromString = 32" "length key_TestID = 32"
    by (simp_all add: key_TestFromString_def key_TestID_def)
  have enc: "b58_encode [0x61] = ''2g''"
    by (simp add: b58_encode_def leading_def value_of_def digits.simps b58_alphabet_def)
  have dec: "b58_decode ''2g'' = Some [0x61]"
    by (simp only: b58_decode_iff enc)
  have flip: "b58_decode ''Ba3mm8Ra8JYYebeZ9p7zw1ayorDbeD1euwxhgzSLsncKqGoNu'' = Some (key_TestID @ [0x25, 0x33, 0x11, 0x46])"
    by (simp only: b58_decode_iff encode_flipped)
  have zero: "CHR ''0'' \<notin> set b58_alphabet"
    by (simp add: b58_alphabet_def)
  show ?thesis
    using FromString_inverse [of key_TestFromString "''Ba3mm8Ra8JYYebeZ9p7zw1ayorDbeD1euwxhgzSLsncKqGoNt''"
        "NewID key_TestID" "CHR ''0''" "[0x61]"]
      FromString_inverse [of key_TestID "''Ba0''" "NewID key_TestID" "CHR ''0''" "[0x61]"]
      FromString_inverse [of key_TestID "''2g''" "NewID key_TestID" "CHR ''0''" "[0x61]"]
      FromString_inverse [of key_TestID "''Ba3mm8Ra8JYYebeZ9p7zw1ayorDbeD1euwxhgzSLsncKqGoNu''" "NewID key_TestID" "CHR ''0''"
        "key_TestID @ [0x25, 0x33, 0x11, 0x46]"]
      len dec flip zero ID_String_TestID checksum_TestID
    by (simp add: FromString_iff)
qed

end
